theory Spec2Isabelle
  imports Main "HOL-Library.Extended_Nat" "HOL-Library.Multiset"
begin

section \<open>Strings of the host language\<close>

text \<open>
  The source is TypeScript (src/lib/dbml/dbml-comments/dbml-comments.ts). Its strings are
  modelled as \<open>string\<close>, a list of 8-bit characters read as code units 0..255. The
  regular expressions of the source are written out as matching functions, each one
  next to the expression it stands for.
\<close>

definition NL :: char where
  "NL = CHR 0x0A"

definition DQ :: char where
  "DQ = CHR 0x22"

text \<open>White space as \<open>String.prototype.trim\<close> and the class \<open>\s\<close> see it below code unit
  256: TAB, LF, VT, FF, CR, SP and NBSP.\<close>

definition isSpace :: "char \<Rightarrow> bool" where
  "isSpace c = (c \<in> {CHR 0x09, CHR 0x0A, CHR 0x0B, CHR 0x0C, CHR 0x0D, CHR 0x20, CHR 0xA0})"

text \<open>The characters that \<open>.\<close> does not match: the line terminators LF and CR.\<close>

definition isLineTerminator :: "char \<Rightarrow> bool" where
  "isLineTerminator c = (c \<in> {CHR 0x0A, CHR 0x0D})"

text \<open>The class \<open>\w\<close>.\<close>

definition isWord :: "char \<Rightarrow> bool" where
  "isWord c = (c \<in> set ''abcdefghijklmnopqrstuvwxyzABCDEFGHIJKLMNOPQRSTUVWXYZ0123456789_'')"

text \<open>Case folding of the flag \<open>i\<close>, as far as the keywords of the source need it: they
  are ASCII letters, and below code unit 256 an ASCII letter is matched by its two
  cases and by nothing else.\<close>

definition lowerASCII :: "char \<Rightarrow> char" where
  "lowerASCII c =
     (case map_of (zip ''ABCDEFGHIJKLMNOPQRSTUVWXYZ'' ''abcdefghijklmnopqrstuvwxyz'') c of
        Some d \<Rightarrow> d
      | None \<Rightarrow> c)"

definition trim :: "string \<Rightarrow> string" where
  "trim s = rev (dropWhile isSpace (rev (dropWhile isSpace s)))"

text \<open>\<open>s.split('\n')\<close>: the segments between the separators; never the empty list.\<close>

fun split :: "string \<Rightarrow> string list" where
  "split [] = [[]]"
| "split (c # cs) =
     (let r = split cs in if c = NL then [] # r else (c # hd r) # tl r)"

text \<open>\<open>parts.join(sep)\<close>.\<close>

fun join :: "string \<Rightarrow> string list \<Rightarrow> string" where
  "join sep [] = []"
| "join sep [x] = x"
| "join sep (x # y # ys) = x @ sep @ join sep (y # ys)"

definition startsWith :: "string \<Rightarrow> string \<Rightarrow> bool" where
  "startsWith p s = (take (length p) s = p)"

definition endsWith :: "string \<Rightarrow> string \<Rightarrow> bool" where
  "endsWith p s = (length p \<le> length s \<and> drop (length s - length p) s = p)"

text \<open>\<open>s.includes(p)\<close>.\<close>

fun includesStr :: "string \<Rightarrow> string \<Rightarrow> bool" where
  "includesStr p [] = (p = [])"
| "includesStr p (c # cs) = (if startsWith p (c # cs) then True else includesStr p cs)"

text \<open>\<open>(line.match(/{/g) || []).length\<close>: the number of occurrences of one character.\<close>

definition countChar :: "char \<Rightarrow> string \<Rightarrow> int" where
  "countChar c s = int (length (filter (\<lambda>x. x = c) s))"

text \<open>Truthiness of an optional string: \<open>undefined\<close>, \<open>null\<close> and \<open>''\<close> are falsy.\<close>

definition truthy :: "string option \<Rightarrow> bool" where
  "truthy v = (case v of None \<Rightarrow> False | Some s \<Rightarrow> s \<noteq> [])"

text \<open>\<open>a || b\<close> on optional strings.\<close>

definition orElse :: "string option \<Rightarrow> string option \<Rightarrow> string option" where
  "orElse a b = (if truthy a then a else b)"

text \<open>\<open>a || ''\<close>, and an optional string inside a template literal.\<close>

definition orEmpty :: "string option \<Rightarrow> string" where
  "orEmpty a = (case a of None \<Rightarrow> [] | Some s \<Rightarrow> s)"

definition template :: "string option \<Rightarrow> string" where
  "template a = (case a of None \<Rightarrow> ''undefined'' | Some s \<Rightarrow> s)"

section \<open>The regular expressions\<close>

text \<open>A keyword under the flag \<open>i\<close> at the start of the subject; the rest is returned.\<close>

definition matchKeyword :: "string \<Rightarrow> string \<Rightarrow> string option" where
  "matchKeyword kw s =
     (if map lowerASCII (take (length kw) s) = kw then Some (drop (length kw) s) else None)"

text \<open>\<open>"([^"]+)"\<close> at the start of the subject: the captured name and the rest. The class
  cannot cross a quote, so the greedy run up to the next quote is the only candidate.\<close>

definition quoted :: "string \<Rightarrow> (string \<times> string) option" where
  "quoted s =
     (case s of
        [] \<Rightarrow> None
      | c # r \<Rightarrow>
          if c = DQ then
            (let n = takeWhile (\<lambda>x. x \<noteq> DQ) r; r' = dropWhile (\<lambda>x. x \<noteq> DQ) r
             in if n \<noteq> [] \<and> r' \<noteq> [] then Some (n, tl r') else None)
          else None)"

text \<open>\<open>(\w+)\<close> at the start of the subject, nothing following it in the expression.\<close>

definition wordRun :: "string \<Rightarrow> string option" where
  "wordRun s = (let w = takeWhile isWord s in if w = [] then None else Some w)"

text \<open>\<open>(?:"([^"]+)"|(\w+))\<close>: capture groups 2 and 3.\<close>

definition nameAlt :: "string \<Rightarrow> (string option \<times> string option) option" where
  "nameAlt s =
     (case quoted s of
        Some (n, r) \<Rightarrow> Some (Some n, None)
      | None \<Rightarrow> (case wordRun s of Some w \<Rightarrow> Some (None, Some w) | None \<Rightarrow> None))"

text \<open>\<open>(?:"([^"]+)"\.)\<close> followed by the name alternative: groups 1, 2 and 3.\<close>

definition schemaThenName ::
  "string \<Rightarrow> (string option \<times> string option \<times> string option) option" where
  "schemaThenName s =
     (case quoted s of
        None \<Rightarrow> None
      | Some (sch, r) \<Rightarrow>
          (case r of
             [] \<Rightarrow> None
           | c # r' \<Rightarrow>
               if c = CHR ''.'' then
                 (case nameAlt r' of None \<Rightarrow> None | Some (q, w) \<Rightarrow> Some (Some sch, q, w))
               else None))"

text \<open>
  \<open>/^Table\s+(?:"([^"]+)"\.)?(?:"([^"]+)"|(\w+))/i\<close>: the capture groups 1, 2 and 3 of
  a match. After the keyword \<open>\s+\<close> takes the whole run of white space, since what
  follows starts with a quote or a word character. The optional group is tried first;
  when the expression fails with it the matcher backtracks and goes on without it.
\<close>

definition tableMatch ::
  "string \<Rightarrow> (string option \<times> string option \<times> string option) option" where
  "tableMatch s =
     (case matchKeyword ''table'' s of
        None \<Rightarrow> None
      | Some r \<Rightarrow>
          if r = [] then None
          else if \<not> isSpace (hd r) then None
          else
            (let r1 = dropWhile isSpace r in
               case schemaThenName r1 of
                 Some g \<Rightarrow> Some g
               | None \<Rightarrow>
                   (case nameAlt r1 of None \<Rightarrow> None | Some (q, w) \<Rightarrow> Some (None, q, w))))"

text \<open>\<open>/^Enum\s+/i\<close>.\<close>

definition enumMatch :: "string \<Rightarrow> bool" where
  "enumMatch s =
     (case matchKeyword ''enum'' s of
        None \<Rightarrow> False
      | Some r \<Rightarrow> (case r of [] \<Rightarrow> False | c # r' \<Rightarrow> isSpace c))"

text \<open>\<open>/^Ref\s*[:{]/i\<close>.\<close>

definition refMatch :: "string \<Rightarrow> bool" where
  "refMatch s =
     (case matchKeyword ''ref'' s of
        None \<Rightarrow> False
      | Some r \<Rightarrow>
          (case dropWhile isSpace r of
             [] \<Rightarrow> False
           | c # r' \<Rightarrow> c = CHR '':'' \<or> c = CHR ''{''))"

text \<open>\<open>/^\/\/(.*)$/\<close>: two slashes, then no line terminator up to the end.\<close>

definition singleLineMatch :: "string \<Rightarrow> bool" where
  "singleLineMatch s = (startsWith ''//'' s \<and> \<not> list_ex isLineTerminator (drop 2 s))"

text \<open>
  \<open>/^(.+?)(\/\/.*)$/\<close>: groups 1 and 2. The lazy group grows one character at a time
  from length one, so the split is at the first \<open>//\<close> that does not start the subject;
  a line terminator anywhere stops either \<open>.+?\<close> or \<open>.*\<close> short of the end.
\<close>

fun slashSplit :: "string \<Rightarrow> string \<Rightarrow> (string \<times> string) option" where
  "slashSplit pre [] = None"
| "slashSplit pre (c # cs) =
     (if pre \<noteq> [] \<and> startsWith ''//'' (c # cs) then Some (pre, c # cs)
      else slashSplit (pre @ [c]) cs)"

definition inlineMatch :: "string \<Rightarrow> (string \<times> string) option" where
  "inlineMatch line = (if list_ex isLineTerminator line then None else slashSplit [] line)"

text \<open>\<open>/^"([^"]+)"/\<close>: group 1.\<close>

definition fieldMatch :: "string \<Rightarrow> string option" where
  "fieldMatch s = map_option fst (quoted s)"

text \<open>\<open>/^\/\*/\<close>.\<close>

definition multiLineStart :: "string \<Rightarrow> bool" where
  "multiLineStart s = startsWith ''/*'' s"

section \<open>Data model\<close>

datatype CommentType = Header | Table | Field | Footer | Inline

record Context =
  tableName :: "string option"
  fieldName :: "string option"

record DBMLComment =
  comment_type :: CommentType
  comment_text :: string
  comment_context :: "Context option"

record DBMLTableOrder =
  order_tableName :: string
  order_schemaName :: "string option"

section \<open>extractTableOrder\<close>

text \<open>\<open>tableMatch[2] || tableMatch[3] || ''\<close>.\<close>

definition nameOf23 :: "string option \<times> string option \<times> string option \<Rightarrow> string" where
  "nameOf23 g = (case g of (g1, g2, g3) \<Rightarrow> orEmpty (orElse g2 g3))"

fun tableOrderLoop :: "string list \<Rightarrow> DBMLTableOrder list \<Rightarrow> DBMLTableOrder list" where
  "tableOrderLoop [] tableOrder = tableOrder"
| "tableOrderLoop (line # rest) tableOrder =
     (case tableMatch (trim line) of
        Some g \<Rightarrow>
          tableOrderLoop rest
            (tableOrder @ [\<lparr>order_tableName = nameOf23 g, order_schemaName = fst g\<rparr>])
      | None \<Rightarrow> tableOrderLoop rest tableOrder)"

definition extractTableOrder :: "string \<Rightarrow> DBMLTableOrder list" where
  "extractTableOrder dbml = tableOrderLoop (split dbml) []"

section \<open>extractComments\<close>

text \<open>The scanning variables shared by the extractor and the merger.\<close>

record ScanState =
  currentTable :: "string option"
  inTableBlock :: bool
  braceDepth :: int

record ExtractState = ScanState +
  comments :: "DBMLComment list"
  foundFirstDefinition :: bool
  pendingComments :: "string list"

text \<open>\<open>tableMatch[2] || tableMatch[3] || tableMatch[1] || ''\<close>.\<close>

definition nameOf231 :: "string option \<times> string option \<times> string option \<Rightarrow> string" where
  "nameOf231 g = (case g of (g1, g2, g3) \<Rightarrow> orEmpty (orElse (orElse g2 g3) g1))"

text \<open>\<open>{ tableName: currentTable || undefined }\<close>.\<close>

definition tableContext :: "string option \<Rightarrow> Context" where
  "tableContext ct = \<lparr>tableName = orElse ct None, fieldName = None\<rparr>"

text \<open>Lines 74 to 98: a line that starts a table definition.\<close>

definition flushAtTable :: "ExtractState \<Rightarrow> ExtractState" where
  "flushAtTable st =
     (if pendingComments st \<noteq> [] then
        (if \<not> foundFirstDefinition st then
           st\<lparr>comments := comments st @
                 [\<lparr>comment_type = Header,
                   comment_text = join [NL] (pendingComments st),
                   comment_context = None\<rparr>],
              pendingComments := []\<rparr>
         else
           st\<lparr>comments := comments st @
                 [\<lparr>comment_type = Table,
                   comment_text = join [NL] (pendingComments st),
                   comment_context = Some \<lparr>tableName = currentTable st, fieldName = None\<rparr>\<rparr>],
              pendingComments := []\<rparr>)
      else st)"

definition tablePhase :: "string \<Rightarrow> ExtractState \<Rightarrow> ExtractState" where
  "tablePhase trimmedLine st =
     (case tableMatch trimmedLine of
        None \<Rightarrow> st
      | Some g \<Rightarrow>
          (flushAtTable (st\<lparr>currentTable := Some (nameOf231 g), inTableBlock := True\<rparr>))
            \<lparr>foundFirstDefinition := True\<rparr>)"

text \<open>Lines 101 to 112: a line that starts an enum definition.\<close>

definition enumPhase :: "string \<Rightarrow> ExtractState \<Rightarrow> ExtractState" where
  "enumPhase trimmedLine st =
     (if enumMatch trimmedLine then
        (let st1 = st\<lparr>foundFirstDefinition := True\<rparr> in
           if pendingComments st1 \<noteq> [] \<and> \<not> truthy (currentTable st1) then
             st1\<lparr>comments := comments st1 @
                   [\<lparr>comment_type = Header,
                     comment_text = join [NL] (pendingComments st1),
                     comment_context = None\<rparr>],
                 pendingComments := []\<rparr>
           else st1)
      else st)"

text \<open>Lines 117 to 130 and 167 to 177: where a whole-line or block comment goes.\<close>

definition placeComment :: "string \<Rightarrow> ExtractState \<Rightarrow> ExtractState" where
  "placeComment txt st =
     (if \<not> foundFirstDefinition st then st\<lparr>pendingComments := pendingComments st @ [txt]\<rparr>
      else if inTableBlock st \<and> braceDepth st > 0 then
        st\<lparr>comments := comments st @
              [\<lparr>comment_type = Field,
                comment_text = txt,
                comment_context = Some (tableContext (currentTable st))\<rparr>]\<rparr>
      else st\<lparr>pendingComments := pendingComments st @ [txt]\<rparr>)"

definition singleLinePhase :: "string \<Rightarrow> string \<Rightarrow> ExtractState \<Rightarrow> ExtractState" where
  "singleLinePhase line trimmedLine st =
     (if singleLineMatch trimmedLine then placeComment line st else st)"

text \<open>Lines 134 to 151: a comment at the end of a line with code.\<close>

definition inlinePhase :: "string \<Rightarrow> string \<Rightarrow> ExtractState \<Rightarrow> ExtractState" where
  "inlinePhase line trimmedLine st =
     (case inlineMatch line of
        None \<Rightarrow> st
      | Some (code, commentPart) \<Rightarrow>
          if singleLineMatch trimmedLine then st
          else
            (case fieldMatch (trim code) of
               None \<Rightarrow> st
             | Some fld \<Rightarrow>
                 if inTableBlock st then
                   st\<lparr>comments := comments st @
                         [\<lparr>comment_type = Inline,
                           comment_text = commentPart,
                           comment_context =
                             Some \<lparr>tableName = orElse (currentTable st) None,
                                   fieldName = Some fld\<rparr>\<rparr>]\<rparr>
                 else st))"

text \<open>
  Lines 156 to 165: the search for the end of a block comment, from the line \<open>cur\<close> at
  index \<open>j\<close> with the lines \<open>rest\<close> after it. It returns what is appended to
  \<open>multiLineComment\<close> and how far \<open>j\<close> moves; at the end of the input \<open>j\<close> stops one
  past the last line, which is one more than the lines that are left.
\<close>

fun multiLineScan :: "string \<Rightarrow> string list \<Rightarrow> string \<times> nat" where
  "multiLineScan cur [] = ([], if includesStr ''*/'' cur then 0 else 1)"
| "multiLineScan cur (nxt # rest) =
     (if includesStr ''*/'' cur then ([], 0)
      else (case multiLineScan nxt rest of (t, k) \<Rightarrow> (NL # nxt @ t, Suc k)))"

text \<open>Lines 155 to 180; the second component is \<open>j - i\<close>, the lines to skip.\<close>

definition multiLinePhase ::
  "string \<Rightarrow> string \<Rightarrow> string list \<Rightarrow> ExtractState \<Rightarrow> ExtractState \<times> nat" where
  "multiLinePhase line trimmedLine rest st =
     (if multiLineStart trimmedLine then
        (case multiLineScan line rest of (t, k) \<Rightarrow> (placeComment (line @ t) st, k))
      else (st, 0))"

text \<open>Lines 183 to 189, with the counts of braces taken on the line at index \<open>i\<close>.\<close>

definition bracePhase :: "string \<Rightarrow> ExtractState \<Rightarrow> ExtractState" where
  "bracePhase line st =
     (let openBraces = countChar (CHR ''{'') line;
          closeBraces = countChar (CHR ''}'') line;
          st1 = st\<lparr>braceDepth := braceDepth st + (openBraces - closeBraces)\<rparr>
      in if inTableBlock st1 \<and> braceDepth st1 = 0 \<and> closeBraces > 0 then
           st1\<lparr>inTableBlock := False, currentTable := None\<rparr>
         else st1)"

text \<open>One turn of the loop at the line \<open>line\<close>, the lines \<open>rest\<close> after it: the new state and
  the number of following lines the block comment has taken.\<close>

definition extractLine :: "string \<Rightarrow> string list \<Rightarrow> ExtractState \<Rightarrow> ExtractState \<times> nat" where
  "extractLine line rest st =
     (let trimmedLine = trim line;
          st1 = tablePhase trimmedLine st;
          st2 = enumPhase trimmedLine st1;
          st3 = singleLinePhase line trimmedLine st2;
          st4 = inlinePhase line trimmedLine st3
      in case multiLinePhase line trimmedLine rest st4 of
           (st5, k) \<Rightarrow> (bracePhase line st5, k))"

fun extractLoop :: "string list \<Rightarrow> ExtractState \<Rightarrow> ExtractState" where
  "extractLoop [] st = st"
| "extractLoop (line # rest) st =
     (case extractLine line rest st of (st', k) \<Rightarrow> extractLoop (drop k rest) st')"

definition extractInit :: ExtractState where
  "extractInit =
     \<lparr>currentTable = None, inTableBlock = False, braceDepth = 0,
      comments = [], foundFirstDefinition = False, pendingComments = []\<rparr>"

text \<open>Lines 193 to 207: what is still pending at the end.\<close>

definition flushAtEnd :: "ExtractState \<Rightarrow> DBMLComment list" where
  "flushAtEnd st =
     (if pendingComments st \<noteq> [] then
        (if \<not> foundFirstDefinition st then
           comments st @
             [\<lparr>comment_type = Header,
               comment_text = join [NL] (pendingComments st),
               comment_context = None\<rparr>]
         else
           comments st @
             [\<lparr>comment_type = Footer,
               comment_text = join [NL] (pendingComments st),
               comment_context = None\<rparr>])
      else comments st)"

definition extractComments :: "string \<Rightarrow> DBMLComment list" where
  "extractComments dbml = flushAtEnd (extractLoop (split dbml) extractInit)"

section \<open>mergeComments\<close>

text \<open>The three lookup tables of lines 236 to 258.\<close>

record CommentMaps =
  tableComments :: "string \<rightharpoonup> string list"
  fieldComments :: "string \<rightharpoonup> string list"
  inlineFieldComments :: "string \<rightharpoonup> string"

text \<open>\<open>comment.context?.tableName\<close> and \<open>comment.context?.fieldName\<close>.\<close>

definition contextTableName :: "DBMLComment \<Rightarrow> string option" where
  "contextTableName c = (case comment_context c of None \<Rightarrow> None | Some x \<Rightarrow> tableName x)"

definition contextFieldName :: "DBMLComment \<Rightarrow> string option" where
  "contextFieldName c = (case comment_context c of None \<Rightarrow> None | Some x \<Rightarrow> fieldName x)"

text \<open>\<open>map.get(key) || []\<close>.\<close>

definition getOrEmpty :: "(string \<rightharpoonup> string list) \<Rightarrow> string \<Rightarrow> string list" where
  "getOrEmpty m k = (case m k of None \<Rightarrow> [] | Some v \<Rightarrow> v)"

text \<open>The key \<open>`${table}.${field}`\<close> of an inline comment.\<close>

definition inlineKey :: "string \<Rightarrow> string \<Rightarrow> string" where
  "inlineKey tbl fld = tbl @ ''.'' @ fld"

definition addComment :: "CommentMaps \<Rightarrow> DBMLComment \<Rightarrow> CommentMaps" where
  "addComment m c =
     (if comment_type c = Table \<and> truthy (contextTableName c) then
        (let key = orEmpty (contextTableName c) in
           m\<lparr>tableComments :=
               (tableComments m)(key \<mapsto> getOrEmpty (tableComments m) key @ [comment_text c])\<rparr>)
      else if comment_type c = Field \<and> truthy (contextTableName c) then
        (let key = orEmpty (contextTableName c) in
           m\<lparr>fieldComments :=
               (fieldComments m)(key \<mapsto> getOrEmpty (fieldComments m) key @ [comment_text c])\<rparr>)
      else if comment_type c = Inline \<and> truthy (contextTableName c)
              \<and> truthy (contextFieldName c) then
        (let key = inlineKey (orEmpty (contextTableName c)) (orEmpty (contextFieldName c)) in
           m\<lparr>inlineFieldComments := (inlineFieldComments m)(key \<mapsto> comment_text c)\<rparr>)
      else m)"

definition buildMaps :: "DBMLComment list \<Rightarrow> CommentMaps" where
  "buildMaps cs =
     foldl addComment
       \<lparr>tableComments = Map.empty, fieldComments = Map.empty,
        inlineFieldComments = Map.empty\<rparr> cs"

record MergeState = ScanState +
  result :: "string list"
  tableFieldCommentsAdded :: bool

text \<open>Lines 278 to 291.\<close>

definition mergeTablePhase :: "CommentMaps \<Rightarrow> string \<Rightarrow> MergeState \<Rightarrow> MergeState" where
  "mergeTablePhase m trimmedLine st =
     (case tableMatch trimmedLine of
        None \<Rightarrow> st
      | Some g \<Rightarrow>
          st\<lparr>currentTable := Some (nameOf231 g), inTableBlock := True,
             tableFieldCommentsAdded := False,
             result := result st @ getOrEmpty (tableComments m) (nameOf231 g)\<rparr>)"

text \<open>Lines 294 to 308.\<close>

definition mergeFieldPhase :: "CommentMaps \<Rightarrow> MergeState \<Rightarrow> MergeState" where
  "mergeFieldPhase m st =
     (if inTableBlock st \<and> braceDepth st > 0 \<and> \<not> tableFieldCommentsAdded st
         \<and> truthy (currentTable st) then
        st\<lparr>result := result st @ getOrEmpty (fieldComments m) (orEmpty (currentTable st)),
           tableFieldCommentsAdded := True\<rparr>
      else st)"

text \<open>Lines 311 to 328: the inline comment this line receives, if any.\<close>

definition inlineFor :: "CommentMaps \<Rightarrow> string \<Rightarrow> string \<Rightarrow> MergeState \<Rightarrow> string option" where
  "inlineFor m line trimmedLine st =
     (if inTableBlock st \<and> truthy (currentTable st) then
        (case fieldMatch trimmedLine of
           None \<Rightarrow> None
         | Some fld \<Rightarrow>
             (case inlineFieldComments m (inlineKey (orEmpty (currentTable st)) fld) of
                None \<Rightarrow> None
              | Some inlineComment \<Rightarrow>
                  if inlineComment \<noteq> [] \<and> \<not> includesStr ''//'' line then Some inlineComment
                  else None))
      else None)"

text \<open>Lines 320 to 324 and 333 to 339; both exits of the loop body update the depth and
  leave the table in the same way.\<close>

definition mergeBracePhase :: "string \<Rightarrow> MergeState \<Rightarrow> MergeState" where
  "mergeBracePhase line st =
     (let openBraces = countChar (CHR ''{'') line;
          closeBraces = countChar (CHR ''}'') line;
          st1 = st\<lparr>braceDepth := braceDepth st + (openBraces - closeBraces)\<rparr>
      in if inTableBlock st1 \<and> braceDepth st1 = 0 \<and> closeBraces > 0 then
           st1\<lparr>inTableBlock := False, currentTable := None\<rparr>
         else st1)"

definition mergeLine :: "CommentMaps \<Rightarrow> MergeState \<Rightarrow> string \<Rightarrow> MergeState" where
  "mergeLine m st line =
     (let trimmedLine = trim line;
          st1 = mergeTablePhase m trimmedLine st;
          st2 = mergeFieldPhase m st1
      in case inlineFor m line trimmedLine st2 of
           Some inlineComment \<Rightarrow>
             mergeBracePhase line (st2\<lparr>result := result st2 @ [line @ '' '' @ inlineComment]\<rparr>)
         | None \<Rightarrow> mergeBracePhase line (st2\<lparr>result := result st2 @ [line]\<rparr>))"

definition mergeComments :: "string \<Rightarrow> DBMLComment list \<Rightarrow> string" where
  "mergeComments regeneratedDbml cs =
     (if cs = [] then regeneratedDbml
      else
        (let lines = split regeneratedDbml;
             headerComments = filter (\<lambda>c. comment_type c = Header) cs;
             result0 = map comment_text headerComments
                        @ (if headerComments \<noteq> [] \<and> lines \<noteq> [] then [[]] else []);
             st = foldl (mergeLine (buildMaps cs))
                    \<lparr>currentTable = None, inTableBlock = False, braceDepth = 0,
                     result = result0, tableFieldCommentsAdded = False\<rparr> lines;
             footerComments = filter (\<lambda>c. comment_type c = Footer) cs
         in join [NL]
              (result st
                 @ (if footerComments \<noteq> [] then [] # map comment_text footerComments
                    else []))))"

section \<open>parseDBMLIntoBlocks\<close>

datatype BlockType = EnumBlock | TableBlock | RefBlock | OtherBlock

record DBMLBlock =
  block_type :: BlockType
  content :: string
  block_tableName :: "string option"
  block_schemaName :: "string option"

record ParseState =
  blocks :: "DBMLBlock list"
  currentBlock :: "string list"
  currentType :: "BlockType option"
  currentTableName :: "string option"
  currentSchemaName :: "string option"
  depth :: int

text \<open>The closure \<open>flushBlock\<close>, lines 374 to 387.\<close>

definition flushBlock :: "ParseState \<Rightarrow> ParseState" where
  "flushBlock st =
     (let st1 =
            (case currentType st of
               None \<Rightarrow> st
             | Some ty \<Rightarrow>
                 if currentBlock st \<noteq> [] then
                   st\<lparr>blocks := blocks st @
                         [\<lparr>block_type = ty, content = join [NL] (currentBlock st),
                           block_tableName = currentTableName st,
                           block_schemaName = currentSchemaName st\<rparr>]\<rparr>
                 else st)
      in st1\<lparr>currentBlock := [], currentType := None,
             currentTableName := None, currentSchemaName := None\<rparr>)"

text \<open>Lines 398 to 423: the start of a new block, looked for at depth 0 only.\<close>

definition startPhase :: "string \<Rightarrow> ParseState \<Rightarrow> ParseState" where
  "startPhase trimmedLine st =
     (if depth st = 0 then
        (let st1 =
               (case tableMatch trimmedLine of
                  None \<Rightarrow> st
                | Some g \<Rightarrow>
                    (flushBlock st)\<lparr>currentType := Some TableBlock,
                                    currentSchemaName := fst g,
                                    currentTableName := Some (nameOf23 g)\<rparr>);
             st2 = (if enumMatch trimmedLine then (flushBlock st1)\<lparr>currentType := Some EnumBlock\<rparr>
                    else st1);
             st3 = (if refMatch trimmedLine then (flushBlock st2)\<lparr>currentType := Some RefBlock\<rparr>
                    else st2)
         in st3)
      else st)"

text \<open>Lines 426 to 440: the line joins the open block, or stands alone.\<close>

definition addPhase :: "string \<Rightarrow> string \<Rightarrow> ParseState \<Rightarrow> ParseState" where
  "addPhase line trimmedLine st =
     (if currentType st \<noteq> None then st\<lparr>currentBlock := currentBlock st @ [line]\<rparr>
      else if trimmedLine \<noteq> [] then
        st\<lparr>blocks := blocks st @
              [\<lparr>block_type = OtherBlock, content = line,
                block_tableName = None, block_schemaName = None\<rparr>]\<rparr>
      else if blocks st \<noteq> [] then
        st\<lparr>blocks := blocks st @
              [\<lparr>block_type = OtherBlock, content = [],
                block_tableName = None, block_schemaName = None\<rparr>]\<rparr>
      else st)"

text \<open>Lines 442 to 447.\<close>

definition closePhase :: "string \<Rightarrow> ParseState \<Rightarrow> ParseState" where
  "closePhase line st =
     (let openBraces = countChar (CHR ''{'') line;
          closeBraces = countChar (CHR ''}'') line;
          st1 = st\<lparr>depth := depth st + (openBraces - closeBraces)\<rparr>
      in if currentType st1 \<noteq> None \<and> depth st1 = 0 \<and> closeBraces > 0 then flushBlock st1
         else st1)"

definition parseLine :: "ParseState \<Rightarrow> string \<Rightarrow> ParseState" where
  "parseLine st line =
     (let trimmedLine = trim line
      in closePhase line (addPhase line trimmedLine (startPhase trimmedLine st)))"

definition parseDBMLIntoBlocks :: "string \<Rightarrow> DBMLBlock list" where
  "parseDBMLIntoBlocks dbml =
     blocks (flushBlock (foldl parseLine
       \<lparr>blocks = [], currentBlock = [], currentType = None,
        currentTableName = None, currentSchemaName = None, depth = 0\<rparr> (split dbml)))"

section \<open>reorderDBML\<close>

text \<open>Lines 488 to 496: \<open>forEach\<close> with its index; a later \<open>set\<close> of a key replaces the
  earlier one.\<close>

definition fullKey :: "DBMLTableOrder \<Rightarrow> string" where
  "fullKey item =
     (if truthy (order_schemaName item)
      then template (order_schemaName item) @ ''.'' @ order_tableName item
      else order_tableName item)"

fun orderMapFrom ::
  "nat \<Rightarrow> DBMLTableOrder list \<Rightarrow> (string \<rightharpoonup> nat) \<Rightarrow> (string \<rightharpoonup> nat)" where
  "orderMapFrom index [] m = m"
| "orderMapFrom index (item # items) m =
     orderMapFrom (Suc index) items (m(fullKey item \<mapsto> index, order_tableName item \<mapsto> index))"

definition orderMap :: "DBMLTableOrder list \<Rightarrow> (string \<rightharpoonup> nat)" where
  "orderMap originalOrder = orderMapFrom 0 originalOrder Map.empty"

text \<open>Lines 501 to 511: the key of a block and its place,
  \<open>orderMap.get(aKey) ?? orderMap.get(a.tableName || '') ?? Infinity\<close>.\<close>

definition blockKey :: "DBMLBlock \<Rightarrow> string" where
  "blockKey a =
     (if truthy (block_schemaName a)
      then template (block_schemaName a) @ ''.'' @ template (block_tableName a)
      else orEmpty (block_tableName a))"

definition blockOrder :: "(string \<rightharpoonup> nat) \<Rightarrow> DBMLBlock \<Rightarrow> enat" where
  "blockOrder om a =
     (case om (blockKey a) of
        Some i \<Rightarrow> enat i
      | None \<Rightarrow> (case om (orEmpty (block_tableName a)) of Some i \<Rightarrow> enat i | None \<Rightarrow> \<infinity>))"

text \<open>The value of \<open>aOrder - bOrder\<close>, where either side may be \<open>Infinity\<close>.\<close>

datatype Difference = Finite int | PlusInfinity | MinusInfinity | NotANumber

definition orderDifference :: "enat \<Rightarrow> enat \<Rightarrow> Difference" where
  "orderDifference a b =
     (case a of
        enat i \<Rightarrow> (case b of enat j \<Rightarrow> Finite (int i - int j) | \<infinity> \<Rightarrow> MinusInfinity)
      | \<infinity> \<Rightarrow> (case b of enat j \<Rightarrow> PlusInfinity | \<infinity> \<Rightarrow> NotANumber))"

definition compareBlocks :: "(string \<rightharpoonup> nat) \<Rightarrow> DBMLBlock \<Rightarrow> DBMLBlock \<Rightarrow> Difference" where
  "compareBlocks om a b = orderDifference (blockOrder om a) (blockOrder om b)"

text \<open>
  \<open>Array.prototype.sort\<close> with a comparator: the sort is stable, a positive result puts
  the first argument after the second, and a result of \<open>NaN\<close> is read as 0. The model is
  the stable insertion sort, each element being entered in front of those that follow it
  in the array and moving behind exactly those it is to come after.
\<close>

definition sortsAfter :: "Difference \<Rightarrow> bool" where
  "sortsAfter d =
     (case d of
        Finite k \<Rightarrow> k > 0
      | PlusInfinity \<Rightarrow> True
      | MinusInfinity \<Rightarrow> False
      | NotANumber \<Rightarrow> False)"

fun insertStable :: "('a \<Rightarrow> 'a \<Rightarrow> Difference) \<Rightarrow> 'a \<Rightarrow> 'a list \<Rightarrow> 'a list" where
  "insertStable cmp x [] = [x]"
| "insertStable cmp x (y # ys) =
     (if sortsAfter (cmp x y) then y # insertStable cmp x ys else x # y # ys)"

definition stableSort :: "('a \<Rightarrow> 'a \<Rightarrow> Difference) \<Rightarrow> 'a list \<Rightarrow> 'a list" where
  "stableSort cmp xs = foldr (insertStable cmp) xs []"

text \<open>Lines 500 to 514.\<close>

definition sortTableBlocks :: "(string \<rightharpoonup> nat) \<Rightarrow> DBMLBlock list \<Rightarrow> DBMLBlock list" where
  "sortTableBlocks om tbs = stableSort (compareBlocks om) tbs"

text \<open>
  \<open>/\n\s*\n\s*\n/\<close> as a backtracking matcher that returns the length of the match.
  \<open>spacesThenNL k s\<close> is \<open>\s*\n\<close> followed by the rest \<open>k\<close> of the expression: the
  star takes one more character first and gives it back when the rest fails.
\<close>

fun spacesThenNL :: "(string \<Rightarrow> nat option) \<Rightarrow> string \<Rightarrow> nat option" where
  "spacesThenNL k [] = None"
| "spacesThenNL k (c # cs) =
     (if isSpace c then
        (case spacesThenNL k cs of
           Some n \<Rightarrow> Some (Suc n)
         | None \<Rightarrow> if c = NL then map_option Suc (k cs) else None)
      else None)"

definition blankRunMatch :: "string \<Rightarrow> nat option" where
  "blankRunMatch s =
     (case s of
        [] \<Rightarrow> None
      | c # cs \<Rightarrow>
          if c = NL then map_option Suc (spacesThenNL (spacesThenNL (\<lambda>r. Some 0)) cs)
          else None)"

text \<open>
  \<open>result.replace(/\n\s*\n\s*\n/g, '\n\n')\<close>: from left to right, every match gives way
  to two newlines and the search goes on behind it. A match of length \<open>n\<close> at \<open>c # cs\<close>
  leaves \<open>drop (n - 1) cs\<close>.
\<close>

fun collapseBlankRuns :: "string \<Rightarrow> string" where
  "collapseBlankRuns [] = []"
| "collapseBlankRuns (c # cs) =
     (case blankRunMatch (c # cs) of
        Some n \<Rightarrow> NL # NL # collapseBlankRuns (drop (n - 1) cs)
      | None \<Rightarrow> c # collapseBlankRuns cs)"

text \<open>Lines 547 to 549.\<close>

definition ensureFinalNewline :: "string \<Rightarrow> string" where
  "ensureFinalNewline r = (if \<not> endsWith [NL] r then r @ [NL] else r)"

text \<open>Lines 463 to 485: the blocks of one kind, in the order of the regenerated text.\<close>

definition blocksOfType :: "BlockType \<Rightarrow> string \<Rightarrow> DBMLBlock list" where
  "blocksOfType ty regeneratedDbml =
     filter (\<lambda>b. block_type b = ty) (parseDBMLIntoBlocks regeneratedDbml)"

definition sortedTableBlocks :: "string \<Rightarrow> DBMLTableOrder list \<Rightarrow> DBMLBlock list" where
  "sortedTableBlocks regeneratedDbml originalOrder =
     sortTableBlocks (orderMap originalOrder) (blocksOfType TableBlock regeneratedDbml)"

text \<open>Lines 517 to 540.\<close>

definition resultParts :: "string \<Rightarrow> DBMLTableOrder list \<Rightarrow> string list" where
  "resultParts regeneratedDbml originalOrder =
     (let enumBlocks = blocksOfType EnumBlock regeneratedDbml;
          sorted = sortedTableBlocks regeneratedDbml originalOrder;
          refBlocks = blocksOfType RefBlock regeneratedDbml
      in map content enumBlocks
         @ (if enumBlocks \<noteq> [] \<and> sorted \<noteq> [] then [[]] else [])
         @ map content sorted
         @ (if refBlocks \<noteq> [] then [] # map content refBlocks else []))"

definition reorderDBML :: "string \<Rightarrow> DBMLTableOrder list \<Rightarrow> string" where
  "reorderDBML regeneratedDbml originalOrder =
     ensureFinalNewline
       (collapseBlankRuns (join [NL] (resultParts regeneratedDbml originalOrder)))"

section \<open>Predicates of the specification\<close>

text \<open>
  The anchor invariant of the data model: an inline record carries a table name and a
  field name; a table or field record carries a table name and no field name; a header
  or footer record has no context. A name that is carried is a non-empty string.
\<close>

definition anchorOK :: "DBMLComment \<Rightarrow> bool" where
  "anchorOK c =
     (case comment_type c of
        Header \<Rightarrow> comment_context c = None
      | Footer \<Rightarrow> comment_context c = None
      | Table \<Rightarrow>
          (case comment_context c of
             None \<Rightarrow> False
           | Some x \<Rightarrow> truthy (tableName x) \<and> fieldName x = None)
      | Field \<Rightarrow>
          (case comment_context c of
             None \<Rightarrow> False
           | Some x \<Rightarrow> truthy (tableName x) \<and> fieldName x = None)
      | Inline \<Rightarrow>
          (case comment_context c of
             None \<Rightarrow> False
           | Some x \<Rightarrow> truthy (tableName x) \<and> truthy (fieldName x)))"

text \<open>What the extractor keeps true from line to line: the records pushed so far are
  well anchored, and inside a table block the current table is set.\<close>

definition extractInv :: "ExtractState \<Rightarrow> bool" where
  "extractInv st =
     (list_all anchorOK (comments st)
      \<and> (if inTableBlock st then truthy (currentTable st) else True))"




text \<open>The number of newlines in the white space a text begins with.\<close>

definition leadingNewlines :: "string \<Rightarrow> nat" where
  "leadingNewlines s = length (filter (\<lambda>c. c = NL) (takeWhile isSpace s))"

text \<open>
  What the clean-up makes of a run of white space: a run with three or more newlines,
  that is with two or more blank lines in a row, keeps what stands before its first and
  after its last newline, with exactly two newlines in between; any other run is kept.
  A text starts or ends visibly when it is empty or its first or last character is not
  white space, so that the run between two such texts is a whole run.
\<close>

definition squeeze :: "string \<Rightarrow> string" where
  "squeeze w =
     (if 3 \<le> length (filter (\<lambda>c. c = NL) w)
      then takeWhile (\<lambda>c. c \<noteq> NL) w @ [NL, NL] @ rev (takeWhile (\<lambda>c. c \<noteq> NL) (rev w))
      else w)"

definition startsVisible :: "string \<Rightarrow> bool" where
  "startsVisible b = (case b of [] \<Rightarrow> True | c # cs \<Rightarrow> \<not> isSpace c)"

definition endsVisible :: "string \<Rightarrow> bool" where
  "endsVisible a = (case rev a of [] \<Rightarrow> True | c # cs \<Rightarrow> \<not> isSpace c)"

text \<open>
  The turns of the loop of \<open>extractComments\<close>: the state the loop is in when it reaches a
  line, the line, and the lines after it. The lines a block comment has taken are not
  reached.
\<close>

fun extractTurns :: "string list \<Rightarrow> ExtractState \<Rightarrow> (ExtractState \<times> string \<times> string list) list" where
  "extractTurns [] st = []"
| "extractTurns (line # rest) st =
     (st, line, rest) #
       (case extractLine line rest st of (st', k) \<Rightarrow> extractTurns (drop k rest) st')"

text \<open>A line that starts a table or an enum definition.\<close>

definition definitionLine :: "string \<Rightarrow> bool" where
  "definitionLine line = (tableMatch (trim line) \<noteq> None \<or> enumMatch (trim line))"

text \<open>The record that the buffer of pending comments is flushed as at a table header:
  a header record as long as no definition has been seen, a table record anchored to
  the given name afterwards; the text is the buffer joined with newlines.\<close>

definition flushRecord :: "bool \<Rightarrow> string list \<Rightarrow> string \<Rightarrow> DBMLComment" where
  "flushRecord seen pending name =
     (if \<not> seen
      then \<lparr>comment_type = Header, comment_text = join [NL] pending, comment_context = None\<rparr>
      else \<lparr>comment_type = Table, comment_text = join [NL] pending,
            comment_context = Some \<lparr>tableName = Some name, fieldName = None\<rparr>\<rparr>)"

text \<open>
  The order of the tables in the words of the specification. A key is the table name
  behind its schema name and a dot, or the bare table name where there is no schema.
  An entry of the original order carries its own key and its bare table name. The place
  of a table block is the index of the last entry that carries the block's key, or else
  of the last entry that carries its bare table name, or else infinity. The matched
  blocks come first, in a stable sort by their places, then the unmatched ones as they
  stand.
\<close>

definition qualifiedKey :: "string option \<Rightarrow> string \<Rightarrow> string" where
  "qualifiedKey sch tbl =
     (case sch of None \<Rightarrow> tbl | Some s \<Rightarrow> if s = [] then tbl else s @ ''.'' @ tbl)"

definition carries :: "DBMLTableOrder \<Rightarrow> string \<Rightarrow> bool" where
  "carries e k =
     (if qualifiedKey (order_schemaName e) (order_tableName e) = k then True
      else order_tableName e = k)"

fun lastEntryFrom :: "nat \<Rightarrow> DBMLTableOrder list \<Rightarrow> string \<Rightarrow> nat option" where
  "lastEntryFrom i [] k = None"
| "lastEntryFrom i (e # es) k =
     (case lastEntryFrom (Suc i) es k of
        Some j \<Rightarrow> Some j
      | None \<Rightarrow> if carries e k then Some i else None)"

definition lastEntry :: "DBMLTableOrder list \<Rightarrow> string \<Rightarrow> nat option" where
  "lastEntry originalOrder k = lastEntryFrom 0 originalOrder k"

definition placeOf :: "DBMLTableOrder list \<Rightarrow> DBMLBlock \<Rightarrow> enat" where
  "placeOf originalOrder b =
     (let n = (case block_tableName b of None \<Rightarrow> [] | Some t \<Rightarrow> t) in
        case lastEntry originalOrder (qualifiedKey (block_schemaName b) n) of
          Some i \<Rightarrow> enat i
        | None \<Rightarrow> (case lastEntry originalOrder n of Some i \<Rightarrow> enat i | None \<Rightarrow> \<infinity>))"

definition tablesInOrder :: "DBMLTableOrder list \<Rightarrow> DBMLBlock list \<Rightarrow> DBMLBlock list" where
  "tablesInOrder originalOrder tbs =
     sort_key (placeOf originalOrder) (filter (\<lambda>b. placeOf originalOrder b \<noteq> \<infinity>) tbs)
     @ filter (\<lambda>b. placeOf originalOrder b = \<infinity>) tbs"

text \<open>What the block partitioner keeps true: a table block has a table name.\<close>

definition tableNamed :: "ParseState \<Rightarrow> bool" where
  "tableNamed st =
     (list_all (\<lambda>b. if block_type b = TableBlock then block_tableName b \<noteq> None else True) (blocks st)
      \<and> (if currentType st = Some TableBlock then currentTableName st \<noteq> None else True))"

section \<open>The merger without comments\<close>

text \<open>
  Claim C1. For every text, \<open>mergeComments\<close> with the empty comment list returns the text
  itself, character for character: the early return of lines 217 to 219 comes before any
  splitting or joining of lines.
\<close>

theorem C1_mergeComments_no_comments:
  "mergeComments regeneratedDbml [] = regeneratedDbml"
  by (simp add: mergeComments_def)

section \<open>The scenario of the specification\<close>

text \<open>
  Claim C5. On the text \<open>// header\<close>, an empty line, \<open>Table users {\<close>, the field line
  \<open>"id" int // pk comment\<close> indented by two spaces, \<open>}\<close> and a final newline,
  \<open>extractComments\<close> returns two records: the header comment \<open>// header\<close> without a
  context, then the inline comment \<open>// pk comment\<close> with table \<open>users\<close> and field \<open>id\<close>;
  \<open>extractTableOrder\<close> returns the one entry \<open>users\<close> without a schema name.
\<close>

theorem C5_scenario:
  "extractComments
     ''// header\<newline>\<newline>Table users {\<newline>  \"id\" int // pk comment\<newline>}\<newline>''
   = [\<lparr>comment_type = Header, comment_text = ''// header'', comment_context = None\<rparr>,
      \<lparr>comment_type = Inline, comment_text = ''// pk comment'',
       comment_context = Some \<lparr>tableName = Some ''users'', fieldName = Some ''id''\<rparr>\<rparr>]
   \<and> extractTableOrder
     ''// header\<newline>\<newline>Table users {\<newline>  \"id\" int // pk comment\<newline>}\<newline>''
   = [\<lparr>order_tableName = ''users'', order_schemaName = None\<rparr>]"
  by code_simp

section \<open>The empty text\<close>

text \<open>
  Claim C6. On the empty text \<open>extractTableOrder\<close> and \<open>extractComments\<close> return the
  empty list, and \<open>reorderDBML\<close> with no original order returns the text that is one
  newline. None of the three functions has a raising path: each is a total function of
  the model, and these are its values.
\<close>

theorem C6_empty_input:
  "extractTableOrder [] = [] \<and> extractComments [] = [] \<and> reorderDBML [] [] = [NL]"
  by code_simp

section \<open>The anchor invariant\<close>

lemma quoted_nonempty: "quoted s = Some (n, r) \<Longrightarrow> n \<noteq> []"
  by (auto simp: quoted_def Let_def split: list.splits if_splits)

lemma wordRun_nonempty: "wordRun s = Some w \<Longrightarrow> w \<noteq> []"
  by (auto simp: wordRun_def Let_def split: if_splits)

lemma nameAlt_truthy:
  assumes "nameAlt s = Some (q, w)"
  shows "(truthy q \<and> w = None) \<or> (q = None \<and> truthy w)"
proof (cases "quoted s")
  case None
  with assms obtain x where "wordRun s = Some x" "w = Some x" "q = None"
    by (auto simp: nameAlt_def split: option.splits)
  then show ?thesis
    using wordRun_nonempty[of s x] by (simp add: truthy_def)
next
  case (Some a)
  with assms show ?thesis
    by (cases a) (auto simp: nameAlt_def truthy_def dest: quoted_nonempty)
qed

lemma tableMatch_groups:
  "tableMatch s = Some (g1, g2, g3) \<Longrightarrow> (truthy g2 \<and> g3 = None) \<or> (g2 = None \<and> truthy g3)"
  by (auto simp: tableMatch_def schemaThenName_def Let_def split: option.splits if_splits list.splits prod.splits dest!: nameAlt_truthy)

lemma nameOf231_nonempty: "tableMatch s = Some g \<Longrightarrow> nameOf231 g \<noteq> []"
  by (cases g) (auto simp: nameOf231_def orElse_def orEmpty_def truthy_def dest!: tableMatch_groups split: option.splits)

lemma inv_tablePhase: "extractInv st \<Longrightarrow> extractInv (tablePhase t st)"
  by (auto simp: extractInv_def tablePhase_def flushAtTable_def anchorOK_def truthy_def dest: nameOf231_nonempty split: option.splits)

lemma inv_enumPhase: "extractInv st \<Longrightarrow> extractInv (enumPhase t st)"
  by (auto simp: extractInv_def enumPhase_def anchorOK_def Let_def)

lemma inv_placeComment: "extractInv st \<Longrightarrow> extractInv (placeComment txt st)"
  by (auto simp: extractInv_def placeComment_def anchorOK_def tableContext_def orElse_def)

lemma inv_singleLinePhase: "extractInv st \<Longrightarrow> extractInv (singleLinePhase l t st)"
  by (simp add: singleLinePhase_def inv_placeComment)

lemma fieldMatch_nonempty: "fieldMatch s = Some f \<Longrightarrow> f \<noteq> []"
  by (auto simp: fieldMatch_def dest: quoted_nonempty)

lemma inv_inlinePhase: "extractInv st \<Longrightarrow> extractInv (inlinePhase l t st)"
  by (auto simp: extractInv_def inlinePhase_def anchorOK_def orElse_def truthy_def dest: fieldMatch_nonempty split: option.splits prod.splits)

lemma inv_multiLinePhase: "extractInv st \<Longrightarrow> extractInv (fst (multiLinePhase l t rest st))"
  by (auto simp: multiLinePhase_def inv_placeComment split: prod.splits)

lemma inv_bracePhase: "extractInv st \<Longrightarrow> extractInv (bracePhase l st)"
  by (auto simp: extractInv_def bracePhase_def Let_def)

lemma inv_extractLine: "extractInv st \<Longrightarrow> extractInv (fst (extractLine l rest st))"
proof -
  assume "extractInv st"
  then have "extractInv (inlinePhase l (trim l) (singleLinePhase l (trim l)
               (enumPhase (trim l) (tablePhase (trim l) st))))"
    by (intro inv_inlinePhase inv_singleLinePhase inv_enumPhase inv_tablePhase)
  then have "extractInv (fst (multiLinePhase l (trim l) rest (inlinePhase l (trim l)
               (singleLinePhase l (trim l) (enumPhase (trim l) (tablePhase (trim l) st))))))"
    by (rule inv_multiLinePhase)
  then show ?thesis
    by (simp add: extractLine_def Let_def case_prod_beta inv_bracePhase)
qed

lemma inv_extractLoop: "extractInv st \<Longrightarrow> extractInv (extractLoop ls st)"
proof (induction ls st rule: extractLoop.induct)
  case (1 st)
  then show ?case by simp
next
  case (2 line rest st)
  obtain st' k where e: "extractLine line rest st = (st', k)" by (cases "extractLine line rest st")
  with 2(2) inv_extractLine[of st line rest] have "extractInv st'" by simp
  with 2(1)[OF e[symmetric]] e show ?case by simp
qed

lemma inv_init: "extractInv extractInit"
  by (simp add: extractInv_def extractInit_def)

lemma flushAtEnd_ok: "extractInv st \<Longrightarrow> list_all anchorOK (flushAtEnd st)"
  by (auto simp: extractInv_def flushAtEnd_def anchorOK_def)

text \<open>
  Claim C7. For every input text, every record that \<open>extractComments\<close> returns is well
  anchored (\<open>anchorOK\<close>): an inline record carries a table name and a field name, a
  table or field record carries a table name and no field name, and a header or footer
  record has no context at all.
\<close>

theorem C7_anchor_invariant: "list_all anchorOK (extractComments dbml)"
  unfolding extractComments_def by (intro flushAtEnd_ok inv_extractLoop inv_init)

text \<open>The theorem on a text that yields a record of each of the five kinds.\<close>

theorem C7_anchor_invariant_witness:
  "extractComments
     ''// h\<newline>Table a {\<newline>  // f\<newline>  \"x\" int // i\<newline>}\<newline>// t\<newline>Table b {\<newline>}\<newline>// foot''
   = [\<lparr>comment_type = Header, comment_text = ''// h'', comment_context = None\<rparr>,
      \<lparr>comment_type = Field, comment_text = ''  // f'',
       comment_context = Some \<lparr>tableName = Some ''a'', fieldName = None\<rparr>\<rparr>,
      \<lparr>comment_type = Inline, comment_text = ''// i'',
       comment_context = Some \<lparr>tableName = Some ''a'', fieldName = Some ''x''\<rparr>\<rparr>,
      \<lparr>comment_type = Table, comment_text = ''// t'',
       comment_context = Some \<lparr>tableName = Some ''b'', fieldName = None\<rparr>\<rparr>,
      \<lparr>comment_type = Footer, comment_text = ''// foot'', comment_context = None\<rparr>]
   \<and> list_all anchorOK
        (extractComments
           ''// h\<newline>Table a {\<newline>  // f\<newline>  \"x\" int // i\<newline>}\<newline>// t\<newline>Table b {\<newline>}\<newline>// foot'')"
proof
  show "extractComments
     ''// h\<newline>Table a {\<newline>  // f\<newline>  \"x\" int // i\<newline>}\<newline>// t\<newline>Table b {\<newline>}\<newline>// foot''
   = [\<lparr>comment_type = Header, comment_text = ''// h'', comment_context = None\<rparr>,
      \<lparr>comment_type = Field, comment_text = ''  // f'',
       comment_context = Some \<lparr>tableName = Some ''a'', fieldName = None\<rparr>\<rparr>,
      \<lparr>comment_type = Inline, comment_text = ''// i'',
       comment_context = Some \<lparr>tableName = Some ''a'', fieldName = Some ''x''\<rparr>\<rparr>,
      \<lparr>comment_type = Table, comment_text = ''// t'',
       comment_context = Some \<lparr>tableName = Some ''b'', fieldName = None\<rparr>\<rparr>,
      \<lparr>comment_type = Footer, comment_text = ''// foot'', comment_context = None\<rparr>]"
    by code_simp
  show "list_all anchorOK
        (extractComments
           ''// h\<newline>Table a {\<newline>  // f\<newline>  \"x\" int // i\<newline>}\<newline>// t\<newline>Table b {\<newline>}\<newline>// foot'')"
    by (rule C7_anchor_invariant)
qed

section \<open>Pending comments at a table header\<close>

text \<open>A line whose trimmed form matches the table header is no enum header and no
  comment line, and the code before a trailing comment on it is no field.\<close>

lemma matchKeyword_hd:
  "matchKeyword (k # kw) s = Some r \<Longrightarrow> s \<noteq> [] \<and> lowerASCII (hd s) = k"
  by (cases s) (auto simp: matchKeyword_def split: if_splits)

lemma tableMatch_hd: "tableMatch t = Some g \<Longrightarrow> t \<noteq> [] \<and> lowerASCII (hd t) = CHR ''t''"
  by (auto simp: tableMatch_def split: option.splits dest!: matchKeyword_hd)

lemma lowerASCII_slash: "lowerASCII (CHR ''/'') = CHR ''/''"
  by (simp add: lowerASCII_def)

lemma lowerASCII_DQ: "lowerASCII DQ = DQ"
  by (simp add: lowerASCII_def DQ_def)

lemma table_not_enum: "tableMatch t = Some g \<Longrightarrow> \<not> enumMatch t"
  by (auto simp: enumMatch_def split: option.splits dest!: matchKeyword_hd tableMatch_hd)

lemma table_not_singleLine: "tableMatch t = Some g \<Longrightarrow> \<not> singleLineMatch t"
  by (cases t) (auto simp: singleLineMatch_def startsWith_def lowerASCII_slash dest!: tableMatch_hd)

lemma table_not_multiLine: "tableMatch t = Some g \<Longrightarrow> \<not> multiLineStart t"
  by (cases t) (auto simp: multiLineStart_def startsWith_def lowerASCII_slash dest!: tableMatch_hd)

lemma trim_Nil: "dropWhile isSpace s = [] \<Longrightarrow> trim s = []"
  unfolding trim_def by (simp only: rev.simps dropWhile.simps)

lemma trim_Cons: "dropWhile isSpace s = x # d \<Longrightarrow> \<exists>ys. trim s = x # ys"
proof -
  assume d: "dropWhile isSpace s = x # d"
  then have nx: "\<not> isSpace x" using hd_dropWhile[of isSpace s] by simp
  have "dropWhile isSpace (rev d @ [x]) = dropWhile isSpace (rev d) @ [x] \<or> dropWhile isSpace (rev d @ [x]) = [x]"
    using nx by (simp add: dropWhile_append)
  then obtain zs where "dropWhile isSpace (rev d @ [x]) = zs @ [x]" by (metis append_Nil)
  then show ?thesis using d by (simp add: trim_def)
qed

lemma slashSplit_append: "slashSplit pre s = Some (a, b) \<Longrightarrow> pre @ s = a @ b"
proof (induction s arbitrary: pre)
  case Nil
  then show ?case by simp
next
  case (Cons c cs)
  show ?case
  proof (cases "pre \<noteq> [] \<and> startsWith ''//'' (c # cs)")
    case True
    with Cons.prems show ?thesis by auto
  next
    case False
    with Cons.prems have "slashSplit (pre @ [c]) cs = Some (a, b)" by auto
    from Cons.IH[OF this] show ?thesis by simp
  qed
qed

lemma inlineMatch_append: "inlineMatch line = Some (a, b) \<Longrightarrow> line = a @ b"
  by (auto simp: inlineMatch_def split: if_splits dest: slashSplit_append)

lemma table_prefix_no_field:
  assumes "tableMatch (trim (a @ b)) = Some g"
  shows "fieldMatch (trim a) = None"
proof (cases "dropWhile isSpace a")
  case Nil
  then show ?thesis by (simp add: trim_Nil fieldMatch_def quoted_def)
next
  case (Cons x d)
  then have "dropWhile isSpace (a @ b) = x # d @ b"
  proof -
    from Cons obtain y where "y \<in> set a" "\<not> isSpace y"
      by (metis dropWhile_eq_Nil_conv list.distinct(1))
    then show ?thesis using Cons by (simp add: dropWhile_append1)
  qed
  then obtain ys where t: "trim (a @ b) = x # ys" using trim_Cons by blast
  obtain zs where a: "trim a = x # zs" using trim_Cons[OF Cons] by blast
  from assms t have "lowerASCII x = CHR ''t''" using tableMatch_hd by fastforce
  then have "x \<noteq> DQ" using lowerASCII_DQ by (auto simp: DQ_def)
  then show ?thesis using a by (auto simp: fieldMatch_def quoted_def)
qed

lemma table_inlinePhase:
  "tableMatch (trim line) = Some g \<Longrightarrow> inlinePhase line t st = st"
  by (auto simp: inlinePhase_def split: option.splits prod.splits dest!: inlineMatch_append dest: table_prefix_no_field)

text \<open>One turn of the loop at a table header with pending comments: exactly the flush
  record is pushed and the buffer is emptied, whatever the state.\<close>

lemma flush_at_table_line:
  assumes "tableMatch (trim line) = Some g" and "pendingComments st \<noteq> []"
  shows "comments (fst (extractLine line rest st)) =
           comments st @ [flushRecord (foundFirstDefinition st) (pendingComments st) (nameOf231 g)]
         \<and> pendingComments (fst (extractLine line rest st)) = []"
  using assms
  by (simp add: extractLine_def Let_def case_prod_beta table_inlinePhase singleLinePhase_def
      table_not_singleLine multiLinePhase_def table_not_multiLine enumPhase_def table_not_enum
      tablePhase_def flushAtTable_def bracePhase_def flushRecord_def)

text \<open>The loop goes on from every turn it reaches; the flag \<open>foundFirstDefinition\<close> is
  set by the definition lines reached before; and the list of records only grows, up
  to the list that is returned.\<close>

lemma turns_loop:
  "n < length (extractTurns ls st0) \<Longrightarrow> extractTurns ls st0 ! n = (st, line, rest) \<Longrightarrow>
     extractLoop ls st0 = extractLoop (line # rest) st"
proof (induction ls st0 arbitrary: n rule: extractLoop.induct)
  case (1 st0)
  then show ?case by simp
next
  case (2 l r st0)
  obtain st' k where e: "extractLine l r st0 = (st', k)" by (cases "extractLine l r st0")
  show ?case
  proof (cases n)
    case 0
    with 2(3) show ?thesis by simp
  next
    case (Suc m)
    with 2(2,3) e have "m < length (extractTurns (drop k r) st')"
      "extractTurns (drop k r) st' ! m = (st, line, rest)" by simp_all
    from 2(1)[OF e[symmetric] this] e show ?thesis by simp
  qed
qed

lemma found_tablePhase: "foundFirstDefinition (tablePhase t st) \<longleftrightarrow> foundFirstDefinition st \<or> tableMatch t \<noteq> None"
  by (auto simp: tablePhase_def flushAtTable_def split: option.splits)
lemma found_enumPhase: "foundFirstDefinition (enumPhase t st) \<longleftrightarrow> foundFirstDefinition st \<or> enumMatch t"
  by (auto simp: enumPhase_def Let_def)
lemma found_placeComment: "foundFirstDefinition (placeComment x st) = foundFirstDefinition st"
  by (simp add: placeComment_def)
lemma found_singleLinePhase: "foundFirstDefinition (singleLinePhase l t st) = foundFirstDefinition st"
  by (simp add: singleLinePhase_def found_placeComment)
lemma found_inlinePhase: "foundFirstDefinition (inlinePhase l t st) = foundFirstDefinition st"
  by (simp add: inlinePhase_def split: option.splits prod.splits)
lemma found_multiLinePhase: "foundFirstDefinition (fst (multiLinePhase l t r st)) = foundFirstDefinition st"
  by (simp add: multiLinePhase_def found_placeComment split: prod.splits)
lemma found_bracePhase: "foundFirstDefinition (bracePhase l st) = foundFirstDefinition st"
  by (simp add: bracePhase_def Let_def)
lemma found_extractLine:
  "foundFirstDefinition (fst (extractLine l r st)) \<longleftrightarrow> foundFirstDefinition st \<or> definitionLine l"
  by (simp add: extractLine_def Let_def case_prod_beta found_bracePhase found_multiLinePhase
      found_inlinePhase found_singleLinePhase found_enumPhase found_tablePhase definitionLine_def)

lemma turns_found:
  "n < length (extractTurns ls st0) \<Longrightarrow> extractTurns ls st0 ! n = (st, line, rest) \<Longrightarrow>
     foundFirstDefinition st \<longleftrightarrow>
       foundFirstDefinition st0
       \<or> (\<exists>m<n. definitionLine (fst (snd (extractTurns ls st0 ! m))))"
proof (induction ls st0 arbitrary: n rule: extractLoop.induct)
  case (1 st0)
  then show ?case by simp
next
  case (2 l r st0)
  obtain st' k where e: "extractLine l r st0 = (st', k)" by (cases "extractLine l r st0")
  show ?case
  proof (cases n)
    case 0
    with 2(3) show ?thesis by simp
  next
    case (Suc m)
    let ?ts = "extractTurns (drop k r) st'"
    from Suc 2(2,3) e have m: "m < length ?ts" "?ts ! m = (st, line, rest)" by simp_all
    from 2(1)[OF e[symmetric] m]
    have ih: "foundFirstDefinition st \<longleftrightarrow>
        foundFirstDefinition st' \<or> (\<exists>j<m. definitionLine (fst (snd (?ts ! j))))" .
    have st': "foundFirstDefinition st' \<longleftrightarrow> foundFirstDefinition st0 \<or> definitionLine l"
      using found_extractLine[of l r st0] e by simp
    have ts: "extractTurns (l # r) st0 = (st0, l, r) # ?ts" using e by simp
    have "(\<exists>j<n. definitionLine (fst (snd (extractTurns (l # r) st0 ! j))))
          \<longleftrightarrow> definitionLine l \<or> (\<exists>j<m. definitionLine (fst (snd (?ts ! j))))"
      unfolding ts Suc by (auto simp: less_Suc_eq_0_disj)
    with ih st' show ?thesis by blast
  qed
qed

lemma grow_tablePhase: "\<exists>more. comments (tablePhase t st) = comments st @ more"
  by (simp add: tablePhase_def flushAtTable_def split: option.splits)
lemma grow_enumPhase: "\<exists>more. comments (enumPhase t st) = comments st @ more"
  by (simp add: enumPhase_def Let_def)
lemma grow_placeComment: "\<exists>more. comments (placeComment x st) = comments st @ more"
  by (simp add: placeComment_def)
lemma grow_singleLinePhase: "\<exists>more. comments (singleLinePhase l t st) = comments st @ more"
  by (simp add: singleLinePhase_def grow_placeComment)
lemma grow_inlinePhase: "\<exists>more. comments (inlinePhase l t st) = comments st @ more"
  by (simp add: inlinePhase_def split: option.splits prod.splits)
lemma grow_multiLinePhase: "\<exists>more. comments (fst (multiLinePhase l t r st)) = comments st @ more"
  by (simp add: multiLinePhase_def grow_placeComment split: prod.splits)
lemma grow_bracePhase: "comments (bracePhase l st) = comments st"
  by (simp add: bracePhase_def Let_def)
lemma grow_extractLine: "\<exists>more. comments (fst (extractLine l r st)) = comments st @ more"
proof -
  let ?t = "trim l"
  obtain a where a: "comments (tablePhase ?t st) = comments st @ a" using grow_tablePhase by blast
  obtain b where b: "comments (enumPhase ?t (tablePhase ?t st)) = comments (tablePhase ?t st) @ b"
    using grow_enumPhase by blast
  obtain c where c: "comments (singleLinePhase l ?t (enumPhase ?t (tablePhase ?t st)))
      = comments (enumPhase ?t (tablePhase ?t st)) @ c" using grow_singleLinePhase by blast
  obtain d where d: "comments (inlinePhase l ?t (singleLinePhase l ?t (enumPhase ?t (tablePhase ?t st))))
      = comments (singleLinePhase l ?t (enumPhase ?t (tablePhase ?t st))) @ d"
    using grow_inlinePhase by blast
  obtain e where e: "comments (fst (multiLinePhase l ?t r (inlinePhase l ?t (singleLinePhase l ?t (enumPhase ?t (tablePhase ?t st))))))
      = comments (inlinePhase l ?t (singleLinePhase l ?t (enumPhase ?t (tablePhase ?t st)))) @ e"
    using grow_multiLinePhase by blast
  show ?thesis
    by (simp add: extractLine_def Let_def case_prod_beta grow_bracePhase a b c d e)
qed
lemma grow_extractLoop: "\<exists>more. comments (extractLoop ls st) = comments st @ more"
proof (induction ls st rule: extractLoop.induct)
  case (1 st)
  then show ?case by simp
next
  case (2 l r st)
  obtain st' k where e: "extractLine l r st = (st', k)" by (cases "extractLine l r st")
  from grow_extractLine[of l r st] e obtain m1 where "comments st' = comments st @ m1" by auto
  moreover from 2[OF e[symmetric]] obtain m2 where
    "comments (extractLoop (drop k r) st') = comments st' @ m2" by auto
  ultimately show ?case using e by simp
qed

lemma grow_flushAtEnd: "\<exists>more. flushAtEnd st = comments st @ more"
  by (simp add: flushAtEnd_def)

text \<open>
  Claim C8. Let the loop of \<open>extractComments\<close>, run on the lines of a text, reach at its
  turn \<open>n\<close> a line whose trimmed form matches the table header, in a state whose buffer
  of pending comments is not empty. Then the flag \<open>foundFirstDefinition\<close> of that state
  says whether a table or enum definition line has been reached at an earlier turn; the
  turn pushes exactly one record and empties the buffer; and the list that
  \<open>extractComments\<close> returns holds that record right behind the records pushed before.
  The record is a header record if no definition has been seen, and otherwise a table
  record anchored to the name of the table of this very line; its text is the buffer
  joined with newlines.
\<close>

theorem C8_flush_at_table_header:
  assumes n: "n < length (extractTurns (split dbml) extractInit)"
    and t: "extractTurns (split dbml) extractInit ! n = (st, line, rest)"
    and m: "tableMatch (trim line) = Some g"
    and p: "pendingComments st \<noteq> []"
  shows "(foundFirstDefinition st \<longleftrightarrow>
           (\<exists>m<n. definitionLine (fst (snd (extractTurns (split dbml) extractInit ! m)))))
         \<and> comments (fst (extractLine line rest st)) =
             comments st @ [flushRecord (foundFirstDefinition st) (pendingComments st) (nameOf231 g)]
         \<and> pendingComments (fst (extractLine line rest st)) = []
         \<and> (\<exists>later. extractComments dbml =
               comments st @
                 flushRecord (foundFirstDefinition st) (pendingComments st) (nameOf231 g) # later)"
proof -
  let ?r = "flushRecord (foundFirstDefinition st) (pendingComments st) (nameOf231 g)"
  have c1: "foundFirstDefinition st \<longleftrightarrow>
           (\<exists>m<n. definitionLine (fst (snd (extractTurns (split dbml) extractInit ! m))))"
    using turns_found[OF n t] by (simp add: extractInit_def)
  note step = flush_at_table_line[OF m p, of rest]
  obtain st' k where e: "extractLine line rest st = (st', k)" by (cases "extractLine line rest st")
  with step have st': "comments st' = comments st @ [?r]" by simp
  have "extractLoop (split dbml) extractInit = extractLoop (drop k rest) st'"
    using turns_loop[OF n t] e by simp
  moreover obtain m2 where "comments (extractLoop (drop k rest) st') = comments st' @ m2"
    using grow_extractLoop by blast
  moreover obtain m3 where
    "flushAtEnd (extractLoop (drop k rest) st') = comments (extractLoop (drop k rest) st') @ m3"
    using grow_flushAtEnd by blast
  ultimately have "extractComments dbml = comments st @ ?r # (m2 @ m3)"
    using st' by (simp add: extractComments_def)
  then have c4: "\<exists>later. extractComments dbml = comments st @ ?r # later" by blast
  from c1 step c4 show ?thesis by blast
qed

text \<open>
  The theorem on a text of five lines: a comment, a table header \<open>Table a\<close> without
  braces, a comment, the table header \<open>Table b {\<close> and a closing brace. The first comment
  is flushed at turn 1 as a header record. The second is flushed at turn 3, where the
  current table is still \<open>a\<close>, as a table record anchored to \<open>b\<close>.
\<close>

theorem C8_flush_at_table_header_witness:
  "(\<exists>later. extractComments ''// h\<newline>Table a\<newline>// t\<newline>Table b {\<newline>}'' =
      \<lparr>comment_type = Header, comment_text = ''// h'', comment_context = None\<rparr> # later)
   \<and> currentTable (fst (extractTurns (split ''// h\<newline>Table a\<newline>// t\<newline>Table b {\<newline>}'') extractInit ! 3))
       = Some ''a''
   \<and> (\<exists>later. extractComments ''// h\<newline>Table a\<newline>// t\<newline>Table b {\<newline>}'' =
      [\<lparr>comment_type = Header, comment_text = ''// h'', comment_context = None\<rparr>] @
      \<lparr>comment_type = Table, comment_text = ''// t'',
       comment_context = Some \<lparr>tableName = Some ''b'', fieldName = None\<rparr>\<rparr> # later)
   \<and> extractComments ''// h\<newline>Table a\<newline>// t\<newline>Table b {\<newline>}'' =
      [\<lparr>comment_type = Header, comment_text = ''// h'', comment_context = None\<rparr>,
       \<lparr>comment_type = Table, comment_text = ''// t'',
       comment_context = Some \<lparr>tableName = Some ''b'', fieldName = None\<rparr>\<rparr>]"
proof -
  let ?x = "''// h\<newline>Table a\<newline>// t\<newline>Table b {\<newline>}''"
  let ?ts = "extractTurns (split ?x) extractInit"
  have len: "1 < length ?ts" "3 < length ?ts" by code_simp+
  have t1: "?ts ! 1 = (fst (?ts ! 1), fst (snd (?ts ! 1)), snd (snd (?ts ! 1)))" by simp
  have t3: "?ts ! 3 = (fst (?ts ! 3), fst (snd (?ts ! 3)), snd (snd (?ts ! 3)))" by simp
  have m1: "tableMatch (trim (fst (snd (?ts ! 1)))) = Some (None, None, Some ''a'')" by code_simp
  have m3: "tableMatch (trim (fst (snd (?ts ! 3)))) = Some (None, None, Some ''b'')" by code_simp
  have p1: "pendingComments (fst (?ts ! 1)) \<noteq> []" by code_simp
  have p3: "pendingComments (fst (?ts ! 3)) \<noteq> []" by code_simp
  have v1: "comments (fst (?ts ! 1)) = []"
    "flushRecord (foundFirstDefinition (fst (?ts ! 1))) (pendingComments (fst (?ts ! 1)))
       (nameOf231 (None, None, Some ''a''))
     = \<lparr>comment_type = Header, comment_text = ''// h'', comment_context = None\<rparr>"
    by code_simp+
  have v3: "comments (fst (?ts ! 3))
     = [\<lparr>comment_type = Header, comment_text = ''// h'', comment_context = None\<rparr>]"
    "flushRecord (foundFirstDefinition (fst (?ts ! 3))) (pendingComments (fst (?ts ! 3)))
       (nameOf231 (None, None, Some ''b''))
     = \<lparr>comment_type = Table, comment_text = ''// t'',
       comment_context = Some \<lparr>tableName = Some ''b'', fieldName = None\<rparr>\<rparr>"
    "currentTable (fst (?ts ! 3)) = Some ''a''"
    by code_simp+
  have whole: "extractComments ?x =
      [\<lparr>comment_type = Header, comment_text = ''// h'', comment_context = None\<rparr>,
       \<lparr>comment_type = Table, comment_text = ''// t'',
       comment_context = Some \<lparr>tableName = Some ''b'', fieldName = None\<rparr>\<rparr>]"
    by code_simp
  from C8_flush_at_table_header[OF len(1) t1 m1 p1]
  have a: "\<exists>later. extractComments ?x =
      \<lparr>comment_type = Header, comment_text = ''// h'', comment_context = None\<rparr> # later"
    unfolding v1 by simp
  from C8_flush_at_table_header[OF len(2) t3 m3 p3]
  have b: "\<exists>later. extractComments ?x =
      [\<lparr>comment_type = Header, comment_text = ''// h'', comment_context = None\<rparr>] @
      \<lparr>comment_type = Table, comment_text = ''// t'',
       comment_context = Some \<lparr>tableName = Some ''b'', fieldName = None\<rparr>\<rparr> # later"
    unfolding v3 by simp
  from a b v3(3) whole show ?thesis by blast
qed

section \<open>Comments that match no table of the regenerated text\<close>




















section \<open>The order of the tables\<close>

text \<open>With the comparator \<open>aOrder - bOrder\<close> the stable sort is the stable sort on the
  places themselves, \<open>Infinity\<close> being the greatest.\<close>

lemma sortsAfter_orderDifference: "sortsAfter (orderDifference a b) \<longleftrightarrow> b < a"
  by (cases a; cases b) (auto simp: sortsAfter_def orderDifference_def)

lemma insertStable_insort_key:
  "insertStable (\<lambda>a b. orderDifference (f a) (f b)) x ys = insort_key f x ys"
  by (induction ys) (auto simp: sortsAfter_orderDifference)

lemma stableSort_sort_key:
  "stableSort (\<lambda>a b. orderDifference (f a) (f b)) xs = sort_key f xs"
  by (induction xs) (auto simp: stableSort_def sort_key_def insertStable_insort_key)

lemma sortTableBlocks_sort_key: "sortTableBlocks om tbs = sort_key (blockOrder om) tbs"
  using stableSort_sort_key[of "blockOrder om" tbs]
  by (simp add: sortTableBlocks_def compareBlocks_def[abs_def])

lemma sorted_infinity_last:
  fixes f :: "'a \<Rightarrow> enat"
  shows "sorted (map f xs) \<Longrightarrow> xs = filter (\<lambda>x. f x \<noteq> \<infinity>) xs @ filter (\<lambda>x. f x = \<infinity>) xs"
proof (induction xs)
  case Nil
  then show ?case by simp
next
  case (Cons x xs)
  show ?case
  proof (cases "f x = \<infinity>")
    case True
    with Cons.prems have "\<forall>y\<in>set xs. f y = \<infinity>" by auto
    then have "filter (\<lambda>x. f x \<noteq> \<infinity>) xs = []" "filter (\<lambda>x. f x = \<infinity>) xs = xs"
      by (auto simp: filter_empty_conv filter_id_conv)
    with True show ?thesis by simp
  next
    case False
    with Cons show ?thesis by auto
  qed
qed

text \<open>The lookup of the source holds for a key the index of the last entry that carries
  it, the place of a table block is the place of the specification, and the sorted
  table blocks are the tables in the order of the specification.\<close>

lemma fullKey_qualifiedKey: "fullKey e = qualifiedKey (order_schemaName e) (order_tableName e)"
  by (auto simp: fullKey_def qualifiedKey_def truthy_def template_def split: option.splits)

lemma orderMapFrom_lastEntryFrom:
  "orderMapFrom i items m k = (case lastEntryFrom i items k of Some j \<Rightarrow> Some j | None \<Rightarrow> m k)"
  by (induction items arbitrary: i m)
     (auto simp: carries_def fullKey_qualifiedKey split: option.splits)

lemma orderMap_lastEntry: "orderMap originalOrder k = lastEntry originalOrder k"
  by (simp add: orderMap_def lastEntry_def orderMapFrom_lastEntryFrom split: option.splits)

lemma blockOrder_placeOf:
  "block_tableName b \<noteq> None \<Longrightarrow> blockOrder (orderMap originalOrder) b = placeOf originalOrder b"
  by (auto simp: blockOrder_def placeOf_def blockKey_def qualifiedKey_def orderMap_lastEntry
      truthy_def template_def orEmpty_def Let_def split: option.splits)

lemma named_flushBlock: "tableNamed st \<Longrightarrow> tableNamed (flushBlock st)"
  by (auto simp: tableNamed_def flushBlock_def Let_def list_all_iff split: option.splits if_splits)

lemma named_startPhase: "tableNamed st \<Longrightarrow> tableNamed (startPhase t st)"
proof -
  assume st: "tableNamed st"
  have a: "\<And>s ty. tableNamed s \<Longrightarrow> ty \<noteq> TableBlock \<Longrightarrow> tableNamed ((flushBlock s)\<lparr>currentType := Some ty\<rparr>)"
    using named_flushBlock by (auto simp: tableNamed_def list_all_iff)
  have b: "\<And>s g. tableNamed s \<Longrightarrow> tableNamed ((flushBlock s)\<lparr>currentType := Some TableBlock,
              currentSchemaName := fst g, currentTableName := Some (nameOf23 g)\<rparr>)"
    using named_flushBlock by (auto simp: tableNamed_def list_all_iff)
  let ?st1 = "case tableMatch t of None \<Rightarrow> st
     | Some g \<Rightarrow> (flushBlock st)\<lparr>currentType := Some TableBlock, currentSchemaName := fst g,
                      currentTableName := Some (nameOf23 g)\<rparr>"
  have s1: "tableNamed ?st1" using st b by (cases "tableMatch t") simp_all
  let ?st2 = "if enumMatch t then (flushBlock ?st1)\<lparr>currentType := Some EnumBlock\<rparr> else ?st1"
  have s2: "tableNamed ?st2" using s1 a[of ?st1 EnumBlock] by simp
  let ?st3 = "if refMatch t then (flushBlock ?st2)\<lparr>currentType := Some RefBlock\<rparr> else ?st2"
  have s3: "tableNamed ?st3" using s2 a[of ?st2 RefBlock] by simp
  show ?thesis using st s3 by (simp add: startPhase_def Let_def)
qed

lemma named_addPhase: "tableNamed st \<Longrightarrow> tableNamed (addPhase l t st)"
  by (auto simp: tableNamed_def addPhase_def list_all_iff)

lemma named_closePhase: "tableNamed st \<Longrightarrow> tableNamed (closePhase l st)"
proof -
  assume st: "tableNamed st"
  have d: "\<And>d. tableNamed (st\<lparr>depth := d\<rparr>)" using st by (simp add: tableNamed_def)
  show ?thesis using d named_flushBlock[OF d] by (simp add: closePhase_def Let_def)
qed

lemma named_parseLine: "tableNamed st \<Longrightarrow> tableNamed (parseLine st l)"
  by (simp add: parseLine_def Let_def named_closePhase named_addPhase named_startPhase)

lemma named_foldl: "tableNamed st \<Longrightarrow> tableNamed (foldl parseLine st ls)"
  by (induction ls arbitrary: st) (simp_all add: named_parseLine)

lemma table_blocks_named:
  "b \<in> set (blocksOfType TableBlock regeneratedDbml) \<Longrightarrow> block_tableName b \<noteq> None"
proof -
  assume b: "b \<in> set (blocksOfType TableBlock regeneratedDbml)"
  let ?init = "\<lparr>blocks = [], currentBlock = [], currentType = None,
        currentTableName = None, currentSchemaName = None, depth = 0\<rparr>"
  have "tableNamed ?init" by (simp add: tableNamed_def)
  then have "tableNamed (flushBlock (foldl parseLine ?init (split regeneratedDbml)))"
    by (intro named_flushBlock named_foldl)
  with b show ?thesis
    by (auto simp: blocksOfType_def parseDBMLIntoBlocks_def tableNamed_def list_all_iff split: if_splits)
qed

lemma sort_key_cong_set: "(\<And>x. x \<in> set xs \<Longrightarrow> f x = g x) \<Longrightarrow> sort_key f xs = sort_key g xs"
proof (induction xs)
  case Nil
  then show ?case by simp
next
  case (Cons x xs)
  then have ih: "sort_key f xs = sort_key g xs" by simp
  have fx: "f x = g x" using Cons.prems by simp
  have "\<And>ys. set ys \<subseteq> set xs \<Longrightarrow> insort_key f x ys = insort_key g x ys"
  proof -
    fix ys show "set ys \<subseteq> set xs \<Longrightarrow> insort_key f x ys = insort_key g x ys"
      using fx Cons.prems by (induction ys) auto
  qed
  from this[of "sort_key g xs"] have "insort_key f x (sort_key g xs) = insort_key g x (sort_key g xs)"
    by simp
  with ih show ?case by simp
qed


lemma sort_key_infinity_last:
  fixes f :: "'a \<Rightarrow> enat"
  shows "sort_key f xs = sort_key f (filter (\<lambda>x. f x \<noteq> \<infinity>) xs) @ filter (\<lambda>x. f x = \<infinity>) xs"
proof -
  have "sort_key f xs = filter (\<lambda>x. f x \<noteq> \<infinity>) (sort_key f xs) @ filter (\<lambda>x. f x = \<infinity>) (sort_key f xs)"
    by (rule sorted_infinity_last) simp
  also have "filter (\<lambda>x. f x \<noteq> \<infinity>) (sort_key f xs) = sort_key f (filter (\<lambda>x. f x \<noteq> \<infinity>) xs)"
    by (rule filter_sort)
  also have "filter (\<lambda>x. f x = \<infinity>) (sort_key f xs) = filter (\<lambda>x. f x = \<infinity>) xs"
    by (rule sort_key_stable)
  finally show ?thesis .
qed

lemma sortedTableBlocks_tablesInOrder:
  "sortedTableBlocks regeneratedDbml originalOrder
     = tablesInOrder originalOrder (blocksOfType TableBlock regeneratedDbml)"
proof -
  let ?T = "blocksOfType TableBlock regeneratedDbml"
  have "sortedTableBlocks regeneratedDbml originalOrder = sort_key (blockOrder (orderMap originalOrder)) ?T"
    by (simp add: sortedTableBlocks_def sortTableBlocks_sort_key)
  also have "\<dots> = sort_key (placeOf originalOrder) ?T"
    by (rule sort_key_cong_set) (simp add: blockOrder_placeOf table_blocks_named)
  also have "\<dots> = tablesInOrder originalOrder ?T"
    unfolding tablesInOrder_def by (rule sort_key_infinity_last)
  finally show ?thesis .
qed

lemma lastEntryFrom_last:
  assumes "i < length items" and "carries (items ! i) k"
    and "\<forall>j. i < j \<longrightarrow> j < length items \<longrightarrow> \<not> carries (items ! j) k"
  shows "lastEntryFrom s items k = Some (s + i)"
  using assms
proof (induction items arbitrary: s i)
  case Nil
  then show ?case by simp
next
  case (Cons e es)
  show ?case
  proof (cases i)
    case 0
    have "\<forall>j<length es. \<not> carries (es ! j) k"
      using Cons.prems(3) 0 by (metis Suc_less_eq length_Cons nth_Cons_Suc zero_less_Suc)
    then have "lastEntryFrom (Suc s) es k = None"
    proof (induction es arbitrary: s)
      case Nil
      then show ?case by simp
    next
      case (Cons a as)
      from Cons.prems have "\<not> carries a k" by auto
      moreover from Cons.prems have "\<forall>j<length as. \<not> carries (as ! j) k" by auto
      ultimately show ?case using Cons.IH by simp
    qed
    with Cons.prems(2) 0 show ?thesis by simp
  next
    case (Suc i')
    have "lastEntryFrom (Suc s) es k = Some (Suc s + i')"
    proof (rule Cons.IH)
      show "i' < length es" using Cons.prems(1) Suc by simp
      show "carries (es ! i') k" using Cons.prems(2) Suc by simp
      show "\<forall>j. i' < j \<longrightarrow> j < length es \<longrightarrow> \<not> carries (es ! j) k"
        using Cons.prems(3) Suc by (metis Suc_less_eq length_Cons nth_Cons_Suc)
    qed
    with Suc show ?thesis by simp
  qed
qed

lemma lastEntryFrom_none:
  "\<forall>j<length items. \<not> carries (items ! j) k \<Longrightarrow> lastEntryFrom s items k = None"
proof (induction items arbitrary: s)
  case Nil
  then show ?case by simp
next
  case (Cons a as)
  from Cons.prems have "\<not> carries a k" by auto
  moreover from Cons.prems have "\<forall>j<length as. \<not> carries (as ! j) k" by auto
  ultimately show ?case using Cons.IH by simp
qed

lemma reorderDBML_tablesInOrder:
  "reorderDBML regeneratedDbml originalOrder =
     ensureFinalNewline (collapseBlankRuns (join [NL]
       (map content (blocksOfType EnumBlock regeneratedDbml)
        @ (if blocksOfType EnumBlock regeneratedDbml \<noteq> []
              \<and> blocksOfType TableBlock regeneratedDbml \<noteq> [] then [[]] else [])
        @ map content (tablesInOrder originalOrder (blocksOfType TableBlock regeneratedDbml))
        @ (if blocksOfType RefBlock regeneratedDbml \<noteq> []
           then [] # map content (blocksOfType RefBlock regeneratedDbml) else []))))"
proof -
  have ne: "sortedTableBlocks regeneratedDbml originalOrder \<noteq> []
        \<longleftrightarrow> blocksOfType TableBlock regeneratedDbml \<noteq> []"
    unfolding sortedTableBlocks_def sortTableBlocks_sort_key
    by (metis length_sort length_0_conv)
  show ?thesis
    unfolding reorderDBML_def resultParts_def Let_def ne
    by (simp only: sortedTableBlocks_tablesInOrder)
qed

text \<open>
  Claim C4 fails as stated. The lookup is written entry by entry and a later entry
  overwrites an earlier one with the same key. With the original order \<open>A, B, A\<close>, which
  \<open>extractTableOrder\<close> returns for a text that defines \<open>A\<close> twice, the table \<open>A\<close> has the
  place 2 of its last entry: the regenerated tables \<open>A, B\<close> come out as \<open>B, A\<close>, while
  \<open>A\<close> is seen before \<open>B\<close> in the original order.
\<close>

theorem C4_duplicate_name_order:
  "extractTableOrder ''Table A {\<newline>}\<newline>Table B {\<newline>}\<newline>Table A {\<newline>}'' =
        [\<lparr>order_tableName = ''A'', order_schemaName = None\<rparr>,
         \<lparr>order_tableName = ''B'', order_schemaName = None\<rparr>,
         \<lparr>order_tableName = ''A'', order_schemaName = None\<rparr>]
   \<and> reorderDBML ''Table A {\<newline>}\<newline>Table B {\<newline>}\<newline>''
         [\<lparr>order_tableName = ''A'', order_schemaName = None\<rparr>,
          \<lparr>order_tableName = ''B'', order_schemaName = None\<rparr>,
          \<lparr>order_tableName = ''A'', order_schemaName = None\<rparr>]
     = ''Table B {\<newline>}\<newline>Table A {\<newline>}\<newline>''"
  by code_simp

text \<open>
  Claim C4, amended. For every original order and every regenerated text,
  \<open>reorderDBML\<close> writes the table blocks in this order (\<open>tablesInOrder\<close>): first the
  blocks matched by the order lookup, sorted by the place the lookup gives them, blocks
  of the same place in their order in the regenerated text; then all unmatched blocks in
  their order in the regenerated text. The place of a block is the index of the last
  entry of the original order that carries the block's schema-qualified key, or failing
  that its bare table name; where only one entry carries a key that is the first-seen
  index. With the original order \<open>A, B, C\<close> and the regenerated tables \<open>C, A, D, B\<close> the
  tables come out as \<open>A, B, C, D\<close>; with the original order \<open>s1.users, s2.users\<close> the
  regenerated tables \<open>s2.users, s1.users\<close> come out as \<open>s1.users, s2.users\<close>.
\<close>

theorem C4_table_order:
  "reorderDBML regeneratedDbml originalOrder =
     ensureFinalNewline (collapseBlankRuns (join [NL]
       (map content (blocksOfType EnumBlock regeneratedDbml)
        @ (if blocksOfType EnumBlock regeneratedDbml \<noteq> []
              \<and> blocksOfType TableBlock regeneratedDbml \<noteq> [] then [[]] else [])
        @ map content (tablesInOrder originalOrder (blocksOfType TableBlock regeneratedDbml))
        @ (if blocksOfType RefBlock regeneratedDbml \<noteq> []
           then [] # map content (blocksOfType RefBlock regeneratedDbml) else []))))
   \<and> sortedTableBlocks regeneratedDbml originalOrder
       = tablesInOrder originalOrder (blocksOfType TableBlock regeneratedDbml)
   \<and> (i < length originalOrder \<and> carries (originalOrder ! i) k
        \<and> (\<forall>j. i < j \<and> j < length originalOrder \<longrightarrow> \<not> carries (originalOrder ! j) k)
        \<longrightarrow> lastEntry originalOrder k = Some i)
   \<and> ((\<forall>j. j < length originalOrder \<longrightarrow> \<not> carries (originalOrder ! j) k')
        \<longrightarrow> lastEntry originalOrder k' = None)
   \<and> map block_tableName (sortedTableBlocks ''Table C {\<newline>}\<newline>Table A {\<newline>}\<newline>Table D {\<newline>}\<newline>Table B {\<newline>}\<newline>''
         [\<lparr>order_tableName = ''A'', order_schemaName = None\<rparr>,
          \<lparr>order_tableName = ''B'', order_schemaName = None\<rparr>,
          \<lparr>order_tableName = ''C'', order_schemaName = None\<rparr>])
     = [Some ''A'', Some ''B'', Some ''C'', Some ''D'']
   \<and> reorderDBML ''Table C {\<newline>}\<newline>Table A {\<newline>}\<newline>Table D {\<newline>}\<newline>Table B {\<newline>}\<newline>''
         [\<lparr>order_tableName = ''A'', order_schemaName = None\<rparr>,
          \<lparr>order_tableName = ''B'', order_schemaName = None\<rparr>,
          \<lparr>order_tableName = ''C'', order_schemaName = None\<rparr>]
     = ''Table A {\<newline>}\<newline>Table B {\<newline>}\<newline>Table C {\<newline>}\<newline>Table D {\<newline>}\<newline>''
   \<and> reorderDBML ''Table \"s2\".\"users\" {\<newline>}\<newline>Table \"s1\".\"users\" {\<newline>}\<newline>''
         [\<lparr>order_tableName = ''users'', order_schemaName = Some ''s1''\<rparr>,
          \<lparr>order_tableName = ''users'', order_schemaName = Some ''s2''\<rparr>]
     = ''Table \"s1\".\"users\" {\<newline>}\<newline>Table \"s2\".\"users\" {\<newline>}\<newline>''"
proof -
  have p1: "reorderDBML regeneratedDbml originalOrder =
     ensureFinalNewline (collapseBlankRuns (join [NL]
       (map content (blocksOfType EnumBlock regeneratedDbml)
        @ (if blocksOfType EnumBlock regeneratedDbml \<noteq> []
              \<and> blocksOfType TableBlock regeneratedDbml \<noteq> [] then [[]] else [])
        @ map content (tablesInOrder originalOrder (blocksOfType TableBlock regeneratedDbml))
        @ (if blocksOfType RefBlock regeneratedDbml \<noteq> []
           then [] # map content (blocksOfType RefBlock regeneratedDbml) else []))))"
    by (rule reorderDBML_tablesInOrder)
  have p2: "sortedTableBlocks regeneratedDbml originalOrder
       = tablesInOrder originalOrder (blocksOfType TableBlock regeneratedDbml)"
    by (rule sortedTableBlocks_tablesInOrder)
  have p3: "i < length originalOrder \<and> carries (originalOrder ! i) k
        \<and> (\<forall>j. i < j \<and> j < length originalOrder \<longrightarrow> \<not> carries (originalOrder ! j) k)
        \<longrightarrow> lastEntry originalOrder k = Some i"
    using lastEntryFrom_last[of i originalOrder k 0] by (auto simp: lastEntry_def)
  have p4: "(\<forall>j. j < length originalOrder \<longrightarrow> \<not> carries (originalOrder ! j) k')
        \<longrightarrow> lastEntry originalOrder k' = None"
    using lastEntryFrom_none[of originalOrder k' 0] by (auto simp: lastEntry_def)
  have p5: "map block_tableName (sortedTableBlocks ''Table C {\<newline>}\<newline>Table A {\<newline>}\<newline>Table D {\<newline>}\<newline>Table B {\<newline>}\<newline>''
        [\<lparr>order_tableName = ''A'', order_schemaName = None\<rparr>,
         \<lparr>order_tableName = ''B'', order_schemaName = None\<rparr>,
         \<lparr>order_tableName = ''C'', order_schemaName = None\<rparr>])
     = [Some ''A'', Some ''B'', Some ''C'', Some ''D'']"
    by code_simp
  have p6: "reorderDBML ''Table C {\<newline>}\<newline>Table A {\<newline>}\<newline>Table D {\<newline>}\<newline>Table B {\<newline>}\<newline>''
        [\<lparr>order_tableName = ''A'', order_schemaName = None\<rparr>,
         \<lparr>order_tableName = ''B'', order_schemaName = None\<rparr>,
         \<lparr>order_tableName = ''C'', order_schemaName = None\<rparr>]
     = ''Table A {\<newline>}\<newline>Table B {\<newline>}\<newline>Table C {\<newline>}\<newline>Table D {\<newline>}\<newline>''"
    by code_simp
  have p7: "reorderDBML ''Table \"s2\".\"users\" {\<newline>}\<newline>Table \"s1\".\"users\" {\<newline>}\<newline>''
        [\<lparr>order_tableName = ''users'', order_schemaName = Some ''s1''\<rparr>,
         \<lparr>order_tableName = ''users'', order_schemaName = Some ''s2''\<rparr>]
     = ''Table \"s1\".\"users\" {\<newline>}\<newline>Table \"s2\".\"users\" {\<newline>}\<newline>''"
    by code_simp
  from p1 p2 p3 p4 p5 p6 p7 show ?thesis by blast
qed

text \<open>The theorem on the original order \<open>A, B, A\<close>: the last entry for \<open>A\<close> is at index 2,
  the one for \<open>B\<close> at index 1, there is none for \<open>D\<close>, and the regenerated tables
  \<open>C, A, D, B\<close> come out as \<open>B, A\<close> followed by the unmatched \<open>C, D\<close>.\<close>

theorem C4_table_order_witness:
  "lastEntry
        [\<lparr>order_tableName = ''A'', order_schemaName = None\<rparr>,
         \<lparr>order_tableName = ''B'', order_schemaName = None\<rparr>,
         \<lparr>order_tableName = ''A'', order_schemaName = None\<rparr>] ''A'' = Some 2
   \<and> lastEntry
         [\<lparr>order_tableName = ''A'', order_schemaName = None\<rparr>,
          \<lparr>order_tableName = ''B'', order_schemaName = None\<rparr>,
          \<lparr>order_tableName = ''A'', order_schemaName = None\<rparr>] ''B'' = Some 1
   \<and> lastEntry
         [\<lparr>order_tableName = ''A'', order_schemaName = None\<rparr>,
          \<lparr>order_tableName = ''B'', order_schemaName = None\<rparr>,
          \<lparr>order_tableName = ''A'', order_schemaName = None\<rparr>] ''D'' = None
   \<and> reorderDBML ''Table C {\<newline>}\<newline>Table A {\<newline>}\<newline>Table D {\<newline>}\<newline>Table B {\<newline>}\<newline>''
         [\<lparr>order_tableName = ''A'', order_schemaName = None\<rparr>,
          \<lparr>order_tableName = ''B'', order_schemaName = None\<rparr>,
          \<lparr>order_tableName = ''A'', order_schemaName = None\<rparr>]
     = ''Table B {\<newline>}\<newline>Table A {\<newline>}\<newline>Table C {\<newline>}\<newline>Table D {\<newline>}\<newline>''"
proof -
  let ?ord = "[\<lparr>order_tableName = ''A'', order_schemaName = None\<rparr>,
         \<lparr>order_tableName = ''B'', order_schemaName = None\<rparr>,
         \<lparr>order_tableName = ''A'', order_schemaName = None\<rparr>]"
  let ?t = "''Table C {\<newline>}\<newline>Table A {\<newline>}\<newline>Table D {\<newline>}\<newline>Table B {\<newline>}\<newline>''"
  have h2: "2 < length ?ord \<and> carries (?ord ! 2) ''A''
        \<and> (\<forall>j. 2 < j \<and> j < length ?ord \<longrightarrow> \<not> carries (?ord ! j) ''A'')"
    by (simp add: carries_def qualifiedKey_def)
  have h1: "1 < length ?ord \<and> carries (?ord ! 1) ''B''
        \<and> (\<forall>j. 1 < j \<and> j < length ?ord \<longrightarrow> \<not> carries (?ord ! j) ''B'')"
  proof (intro conjI allI impI)
    fix j :: nat assume "1 < j \<and> j < length ?ord"
    then have "j = 2" by simp
    then show "\<not> carries (?ord ! j) ''B''" by (simp add: carries_def qualifiedKey_def)
  qed (simp_all add: carries_def qualifiedKey_def)
  have h0: "\<forall>j. j < length ?ord \<longrightarrow> \<not> carries (?ord ! j) ''D''"
  proof (intro allI impI)
    fix j :: nat assume "j < length ?ord"
    then have "j = 0 \<or> j = 1 \<or> j = 2" by auto
    then show "\<not> carries (?ord ! j) ''D''" by (auto simp: carries_def qualifiedKey_def)
  qed
  have e: "ensureFinalNewline (collapseBlankRuns (join [NL]
       (map content (blocksOfType EnumBlock ?t)
        @ (if blocksOfType EnumBlock ?t \<noteq> [] \<and> blocksOfType TableBlock ?t \<noteq> [] then [[]] else [])
        @ map content (tablesInOrder ?ord (blocksOfType TableBlock ?t))
        @ (if blocksOfType RefBlock ?t \<noteq> [] then [] # map content (blocksOfType RefBlock ?t) else []))))
     = ''Table B {\<newline>}\<newline>Table A {\<newline>}\<newline>Table C {\<newline>}\<newline>Table D {\<newline>}\<newline>''"
    by code_simp
  note a = C4_table_order[of ?t ?ord 2 "''A''" "''D''"]
  note b = C4_table_order[of ?t ?ord 1 "''B''" "''D''"]
  from a h2 have c1: "lastEntry ?ord ''A'' = Some 2" by blast
  from b h1 have c2: "lastEntry ?ord ''B'' = Some 1" by blast
  from a h0 have c3: "lastEntry ?ord ''D'' = None" by blast
  from a e have c4: "reorderDBML ?t ?ord
     = ''Table B {\<newline>}\<newline>Table A {\<newline>}\<newline>Table C {\<newline>}\<newline>Table D {\<newline>}\<newline>''"
    by (simp only:)
  from c1 c2 c3 c4 show ?thesis by blast
qed

section \<open>Duplicate names in the original order\<close>

lemma orderMapFrom_append:
  "orderMapFrom k (xs @ ys) m = orderMapFrom (k + length xs) ys (orderMapFrom k xs m)"
  by (induction xs arbitrary: k m) auto

lemma orderMapFrom_other:
  "\<forall>e\<in>set items. fullKey e \<noteq> key \<and> order_tableName e \<noteq> key \<Longrightarrow>
     orderMapFrom k items m key = m key"
  by (induction items arbitrary: k m) auto

lemma orderMap_last_write:
  assumes i: "i < length ord" and n: "order_tableName (ord ! i) = n"
    and later: "\<forall>j. i < j \<longrightarrow> j < length ord \<longrightarrow> order_tableName (ord ! j) \<noteq> n \<and> fullKey (ord ! j) \<noteq> n"
  shows "orderMap ord n = Some i"
proof -
  have split: "ord = take i ord @ [ord ! i] @ drop (Suc i) ord"
    using i by (simp add: Cons_nth_drop_Suc)
  have "\<forall>e\<in>set (drop (Suc i) ord). fullKey e \<noteq> n \<and> order_tableName e \<noteq> n"
  proof
    fix e assume "e \<in> set (drop (Suc i) ord)"
    then obtain k where "k < length ord - Suc i" "e = drop (Suc i) ord ! k"
      by (auto simp: in_set_conv_nth)
    then have "e = ord ! (Suc i + k)" "Suc i + k < length ord" by auto
    with later show "fullKey e \<noteq> n \<and> order_tableName e \<noteq> n" by auto
  qed
  note rest = orderMapFrom_other[OF this]
  have "orderMap ord n = orderMapFrom 0 (take i ord @ [ord ! i] @ drop (Suc i) ord) Map.empty n"
    using split by (simp add: orderMap_def)
  also have "\<dots> = Some i"
    using i n by (simp add: orderMapFrom_append rest min_def)
  finally show ?thesis .
qed


text \<open>
  Claim C9 fails as stated. The lookup has one table for both kinds of key, so a later
  entry with schema \<open>x\<close> and table \<open>y\<close> overwrites the key \<open>x.y\<close> of two earlier entries
  whose bare table name is \<open>x.y\<close>: a block named \<open>x.y\<close> is placed at index 2, which is not
  the index 1 of the last entry with that bare name.
\<close>

theorem C9_full_key_overwrites_bare_name:
  "extractTableOrder ''Table \"x.y\" {\<newline>}\<newline>Table \"x.y\" {\<newline>}\<newline>Table \"x\".\"y\" {\<newline>}''
     = [\<lparr>order_tableName = ''x.y'', order_schemaName = None\<rparr>,
        \<lparr>order_tableName = ''x.y'', order_schemaName = None\<rparr>,
        \<lparr>order_tableName = ''y'', order_schemaName = Some ''x''\<rparr>]
   \<and> orderMap [\<lparr>order_tableName = ''x.y'', order_schemaName = None\<rparr>,
        \<lparr>order_tableName = ''x.y'', order_schemaName = None\<rparr>,
        \<lparr>order_tableName = ''y'', order_schemaName = Some ''x''\<rparr>] ''x.y'' = Some 2
   \<and> blockOrder (orderMap [\<lparr>order_tableName = ''x.y'', order_schemaName = None\<rparr>,
        \<lparr>order_tableName = ''x.y'', order_schemaName = None\<rparr>,
        \<lparr>order_tableName = ''y'', order_schemaName = Some ''x''\<rparr>])
       \<lparr>block_type = TableBlock, content = ''Table \"x.y\" {\<newline>}'',
        block_tableName = Some ''x.y'', block_schemaName = None\<rparr> = enat 2"
  by code_simp

text \<open>
  Claim C9, amended. Let the entry at index \<open>i\<close> of the original order have the bare
  table name \<open>n\<close>, and let no later entry have \<open>n\<close> as its bare table name or as its
  schema-qualified key. Then the lookup holds \<open>i\<close> for \<open>n\<close>; a table block named \<open>n\<close>
  that is looked up under that bare name (it has no schema, or its schema-qualified key
  is not in the lookup) is placed at \<open>i\<close>; and no earlier index is reachable through
  \<open>n\<close>.
\<close>

theorem C9_last_write_wins:
  assumes "i < length originalOrder"
    and "order_tableName (originalOrder ! i) = n"
    and "\<forall>j. i < j \<longrightarrow> j < length originalOrder \<longrightarrow>
           order_tableName (originalOrder ! j) \<noteq> n \<and> fullKey (originalOrder ! j) \<noteq> n"
    and "block_tableName b = Some n"
    and "\<not> truthy (block_schemaName b) \<or> orderMap originalOrder (blockKey b) = None"
  shows "orderMap originalOrder n = Some i
         \<and> blockOrder (orderMap originalOrder) b = enat i
         \<and> (\<forall>j. j < i \<longrightarrow> orderMap originalOrder n \<noteq> Some j)"
proof -
  have om: "orderMap originalOrder n = Some i"
    using assms(1-3) by (rule orderMap_last_write)
  have "blockOrder (orderMap originalOrder) b = enat i"
    using assms(4,5) om by (auto simp: blockOrder_def blockKey_def orEmpty_def)
  with om show ?thesis by simp
qed

text \<open>The theorem on two entries named \<open>users\<close> in the schemas \<open>s1\<close> and \<open>s2\<close>, followed
  by \<open>orders\<close>: a block \<open>users\<close> without schema is placed at index 1.\<close>

theorem C9_last_write_wins_witness:
  "orderMap [\<lparr>order_tableName = ''users'', order_schemaName = Some ''s1''\<rparr>,
             \<lparr>order_tableName = ''users'', order_schemaName = Some ''s2''\<rparr>,
             \<lparr>order_tableName = ''orders'', order_schemaName = None\<rparr>] ''users'' = Some 1
   \<and> blockOrder (orderMap [\<lparr>order_tableName = ''users'', order_schemaName = Some ''s1''\<rparr>,
             \<lparr>order_tableName = ''users'', order_schemaName = Some ''s2''\<rparr>,
             \<lparr>order_tableName = ''orders'', order_schemaName = None\<rparr>])
        \<lparr>block_type = TableBlock, content = ''Table users {\<newline>}'',
         block_tableName = Some ''users'', block_schemaName = None\<rparr> = enat 1
   \<and> orderMap [\<lparr>order_tableName = ''users'', order_schemaName = Some ''s1''\<rparr>,
             \<lparr>order_tableName = ''users'', order_schemaName = Some ''s2''\<rparr>,
             \<lparr>order_tableName = ''orders'', order_schemaName = None\<rparr>] ''users'' \<noteq> Some 0"
proof -
  let ?ord = "[\<lparr>order_tableName = ''users'', order_schemaName = Some ''s1''\<rparr>,
             \<lparr>order_tableName = ''users'', order_schemaName = Some ''s2''\<rparr>,
             \<lparr>order_tableName = ''orders'', order_schemaName = None\<rparr>]"
  let ?b = "\<lparr>block_type = TableBlock, content = ''Table users {\<newline>}'',
         block_tableName = Some ''users'', block_schemaName = None\<rparr>"
  have h1: "1 < length ?ord" by simp
  have h2: "order_tableName (?ord ! 1) = ''users''" by simp
  have h3: "\<forall>j. 1 < j \<longrightarrow> j < length ?ord \<longrightarrow>
           order_tableName (?ord ! j) \<noteq> ''users'' \<and> fullKey (?ord ! j) \<noteq> ''users''"
  proof (intro allI impI)
    fix j :: nat assume "1 < j" "j < length ?ord"
    then have "j = 2" by simp
    then show "order_tableName (?ord ! j) \<noteq> ''users'' \<and> fullKey (?ord ! j) \<noteq> ''users''"
      by (simp add: fullKey_def truthy_def)
  qed
  have h4: "block_tableName ?b = Some ''users''" by simp
  have h5: "\<not> truthy (block_schemaName ?b) \<or> orderMap ?ord (blockKey ?b) = None"
    by (simp add: truthy_def)
  from C9_last_write_wins[OF h1 h2 h3 h4 h5] show ?thesis by simp
qed

section \<open>Blank lines\<close>

text \<open>The matcher of the clean-up, read off the white space its subject begins with: a
  match runs from a newline to the last newline of that white space, which must hold
  two more newlines.\<close>

lemma isSpace_NL [simp]: "isSpace NL"
  by (simp add: isSpace_def NL_def)

lemma inner_char:
  "(spacesThenNL (\<lambda>r. Some 0) s = None \<longrightarrow> NL \<notin> set (takeWhile isSpace s))
   \<and> (\<forall>n. spacesThenNL (\<lambda>r. Some 0) s = Some n \<longrightarrow>
        (\<exists>w post. takeWhile isSpace s = w @ NL # post \<and> n = Suc (length w) \<and> NL \<notin> set post))"
proof (induction s)
  case Nil
  then show ?case by simp
next
  case (Cons c cs)
  show ?case
  proof (cases "isSpace c")
    case False
    then show ?thesis by simp
  next
    case sp: True
    show ?thesis
    proof (cases "spacesThenNL (\<lambda>r. Some 0) cs")
      case None
      with Cons have "NL \<notin> set (takeWhile isSpace cs)" by simp
      with None sp show ?thesis by auto
    next
      case (Some m)
      with Cons obtain w post where "takeWhile isSpace cs = w @ NL # post" "m = Suc (length w)" "NL \<notin> set post"
        by auto
      then have "takeWhile isSpace (c # cs) = (c # w) @ NL # post \<and> Suc m = Suc (length (c # w)) \<and> NL \<notin> set post"
        using sp by simp
      then have "\<exists>w' post'. takeWhile isSpace (c # cs) = w' @ NL # post' \<and> Suc m = Suc (length w') \<and> NL \<notin> set post'"
        by blast
      moreover have "spacesThenNL (\<lambda>r. Some 0) (c # cs) = Some (Suc m)" using Some sp by simp
      ultimately show ?thesis by simp
    qed
  qed
qed

lemma outer_Some:
  "spacesThenNL (spacesThenNL (\<lambda>r. Some 0)) s = Some n \<Longrightarrow>
     \<exists>w post. takeWhile isSpace s = w @ NL # post \<and> n = Suc (length w) \<and> NL \<notin> set post \<and> NL \<in> set w"
proof (induction s arbitrary: n)
  case Nil
  then show ?case by simp
next
  case (Cons c cs)
  from Cons.prems have sp: "isSpace c" by (auto split: if_splits)
  show ?case
  proof (cases "spacesThenNL (spacesThenNL (\<lambda>r. Some 0)) cs")
    case (Some m)
    from Cons.IH[OF Some] obtain w post where
      "takeWhile isSpace cs = w @ NL # post" "m = Suc (length w)" "NL \<notin> set post" "NL \<in> set w"
      by auto
    then have "takeWhile isSpace (c # cs) = (c # w) @ NL # post \<and> Suc m = Suc (length (c # w))
        \<and> NL \<notin> set post \<and> NL \<in> set (c # w)"
      using sp by simp
    moreover from Cons.prems Some sp have "n = Suc m" by simp
    ultimately show ?thesis by blast
  next
    case None
    with Cons.prems sp obtain m where c: "c = NL" and m: "spacesThenNL (\<lambda>r. Some 0) cs = Some m" and n: "n = Suc m"
      by (auto split: if_splits)
    from inner_char[of cs] m obtain w post where
      "takeWhile isSpace cs = w @ NL # post" "m = Suc (length w)" "NL \<notin> set post"
      by auto
    then have "takeWhile isSpace (c # cs) = (c # w) @ NL # post \<and> n = Suc (length (c # w))
        \<and> NL \<notin> set post \<and> NL \<in> set (c # w)"
      using sp c n by simp
    then show ?thesis by blast
  qed
qed

lemma outer_None:
  "spacesThenNL (spacesThenNL (\<lambda>r. Some 0)) s = None \<Longrightarrow> leadingNewlines s \<le> 1"
proof (induction s)
  case Nil
  then show ?case by (simp add: leadingNewlines_def)
next
  case (Cons c cs)
  show ?case
  proof (cases "isSpace c")
    case False
    then show ?thesis by (simp add: leadingNewlines_def)
  next
    case sp: True
    with Cons.prems have o: "spacesThenNL (spacesThenNL (\<lambda>r. Some 0)) cs = None"
      by (auto split: option.splits)
    with Cons.IH have ih: "leadingNewlines cs \<le> 1" by simp
    show ?thesis
    proof (cases "c = NL")
      case True
      with Cons.prems sp o have "spacesThenNL (\<lambda>r. Some 0) cs = None" by simp
      with inner_char[of cs] have "NL \<notin> set (takeWhile isSpace cs)" by simp
      then have "filter (\<lambda>c. c = NL) (takeWhile isSpace cs) = []"
        by (auto simp: filter_empty_conv)
      with True sp show ?thesis by (simp add: leadingNewlines_def)
    next
      case False
      with ih sp show ?thesis by (simp add: leadingNewlines_def)
    qed
  qed
qed

lemma takeWhile_split_drop:
  assumes "takeWhile P s = w @ x # post"
  shows "drop (Suc (length w)) s = post @ dropWhile P s"
proof -
  have "s = (w @ x # post) @ dropWhile P s" using assms takeWhile_dropWhile_id[of P s] by simp
  then have "drop (Suc (length w)) s = drop (Suc (length w)) ((w @ x # post) @ dropWhile P s)" by simp
  also have "\<dots> = post @ dropWhile P s" by simp
  finally show ?thesis .
qed

lemma leadingNewlines_post:
  assumes "takeWhile isSpace s = w @ x # post" and "NL \<notin> set post"
  shows "leadingNewlines (post @ dropWhile isSpace s) = 0"
proof -
  have sp: "\<forall>c\<in>set post. isSpace c"
    using assms(1) set_takeWhileD[of _ isSpace s] by auto
  have "takeWhile isSpace (dropWhile isSpace s) = []"
    by (induction s) auto
  with sp have "takeWhile isSpace (post @ dropWhile isSpace s) = post"
    by (simp add: takeWhile_append2)
  with assms(2) show ?thesis by (auto simp: leadingNewlines_def filter_empty_conv)
qed

lemma match_Some:
  assumes "blankRunMatch (c # cs) = Some n"
  shows "c = NL \<and> 2 \<le> leadingNewlines cs \<and> leadingNewlines (drop (n - 1) cs) = 0"
proof -
  from assms have c: "c = NL" by (auto simp: blankRunMatch_def split: if_splits)
  with assms obtain m where m: "spacesThenNL (spacesThenNL (\<lambda>r. Some 0)) cs = Some m" and n: "n = Suc m"
    by (auto simp: blankRunMatch_def)
  from outer_Some[OF m] obtain w post where
    w: "takeWhile isSpace cs = w @ NL # post" "m = Suc (length w)" "NL \<notin> set post" "NL \<in> set w"
    by auto
  have "drop (n - 1) cs = post @ dropWhile isSpace cs"
    using takeWhile_split_drop[OF w(1)] n w(2) by simp
  then have z: "leadingNewlines (drop (n - 1) cs) = 0"
    using leadingNewlines_post[OF w(1) w(3)] by simp
  from w(4) have "filter (\<lambda>c. c = NL) w \<noteq> []" by (auto simp: filter_empty_conv)
  then have "1 \<le> length (filter (\<lambda>c. c = NL) w)" by (cases "filter (\<lambda>c. c = NL) w") auto
  then have "2 \<le> leadingNewlines cs" by (simp add: leadingNewlines_def w(1))
  with c z show ?thesis by simp
qed

lemma match_None:
  assumes "blankRunMatch (NL # cs) = None"
  shows "leadingNewlines cs \<le> 1"
  using assms outer_None[of cs] by (auto simp: blankRunMatch_def)

lemma leadingNewlines_Cons:
  "leadingNewlines (c # cs) = (if isSpace c then (if c = NL then 1 else 0) + leadingNewlines cs else 0)"
  by (simp add: leadingNewlines_def)

lemma leadingNewlines_collapse:
  "leadingNewlines (collapseBlankRuns s) \<le> leadingNewlines s \<and> leadingNewlines (collapseBlankRuns s) \<le> 2"
proof (induction s rule: collapseBlankRuns.induct)
  case 1
  then show ?case by (simp add: leadingNewlines_def)
next
  case (2 c cs)
  show ?case
  proof (cases "blankRunMatch (c # cs)")
    case None
    from 2(1)[OF None] have ih: "leadingNewlines (collapseBlankRuns cs) \<le> leadingNewlines cs"
      "leadingNewlines (collapseBlankRuns cs) \<le> 2" by simp_all
    show ?thesis
    proof (cases "c = NL")
      case True
      with None match_None have "leadingNewlines cs \<le> 1" by simp
      with ih None True show ?thesis by (simp add: leadingNewlines_Cons)
    next
      case False
      with ih None show ?thesis by (simp add: leadingNewlines_Cons)
    qed
  next
    case (Some n)
    from match_Some[OF Some] have m: "c = NL" "2 \<le> leadingNewlines cs" "leadingNewlines (drop (n - 1) cs) = 0"
      by simp_all
    from 2(2)[OF Some] m(3) have "leadingNewlines (collapseBlankRuns (drop (n - 1) cs)) = 0" by simp
    with Some m show ?thesis by (simp add: leadingNewlines_Cons)
  qed
qed

lemma suffix_leadingNewlines:
  "collapseBlankRuns s = a @ u \<Longrightarrow> leadingNewlines u \<le> 2"
proof (induction s arbitrary: a rule: collapseBlankRuns.induct)
  case 1
  then show ?case by (simp add: leadingNewlines_def)
next
  case (2 c cs)
  show ?case
  proof (cases "blankRunMatch (c # cs)")
    case None
    with 2(3) have e: "c # collapseBlankRuns cs = a @ u" by simp
    show ?thesis
    proof (cases a)
      case Nil
      with 2(3) have "u = collapseBlankRuns (c # cs)" by (simp only: append_Nil)
      moreover have "leadingNewlines (collapseBlankRuns (c # cs)) \<le> 2"
        using leadingNewlines_collapse by blast
      ultimately show ?thesis by (simp only:)
    next
      case (Cons x a')
      with e have "collapseBlankRuns cs = a' @ u" by simp
      from 2(1)[OF None this] show ?thesis .
    qed
  next
    case (Some n)
    let ?t = "collapseBlankRuns (drop (n - 1) cs)"
    from match_Some[OF Some] leadingNewlines_collapse[of "drop (n - 1) cs"]
    have z: "leadingNewlines ?t = 0" by simp
    from Some 2(3) have e: "NL # NL # ?t = a @ u" by simp
    show ?thesis
    proof (cases a)
      case Nil
      with e z show ?thesis by (auto simp: leadingNewlines_Cons)
    next
      case a1: (Cons x a')
      show ?thesis
      proof (cases a')
        case Nil
        with a1 e z show ?thesis by (auto simp: leadingNewlines_Cons)
      next
        case (Cons y a'')
        with a1 e have "?t = a'' @ u" by simp
        from 2(2)[OF Some this] show ?thesis .
      qed
    qed
  qed
qed

lemma run_leadingNewlines:
  assumes "list_all isSpace w1" "list_all isSpace w2"
  shows "3 \<le> leadingNewlines (NL # w1 @ NL # w2 @ NL # b)"
proof -
  have "takeWhile isSpace ((NL # w1 @ NL # w2 @ [NL]) @ b) = (NL # w1 @ NL # w2 @ [NL]) @ takeWhile isSpace b"
    using assms by (intro takeWhile_append2) (auto simp: list_all_iff)
  then show ?thesis by (simp add: leadingNewlines_def)
qed

lemma collapse_no_run:
  assumes "list_all isSpace w1" "list_all isSpace w2"
  shows "collapseBlankRuns s \<noteq> a @ NL # w1 @ NL # w2 @ NL # b"
proof
  assume "collapseBlankRuns s = a @ NL # w1 @ NL # w2 @ NL # b"
  from suffix_leadingNewlines[OF this] run_leadingNewlines[OF assms, of b] show False by simp
qed


text \<open>The clean-up works run by run.\<close>

lemma spacesThenNL_local:
  assumes "\<exists>c\<in>set u. \<not> isSpace c"
    and "\<And>u'. \<exists>c\<in>set u'. \<not> isSpace c \<Longrightarrow> k (u' @ v) = k u'"
  shows "spacesThenNL k (u @ v) = spacesThenNL k u"
  using assms(1)
proof (induction u)
  case Nil
  then show ?case by simp
next
  case (Cons c u)
  show ?case
  proof (cases "isSpace c")
    case False
    then show ?thesis by simp
  next
    case True
    with Cons.prems have ex: "\<exists>c\<in>set u. \<not> isSpace c" by auto
    from Cons.IH[OF ex] assms(2)[OF ex] True show ?thesis by (simp cong: option.case_cong)
  qed
qed

lemma blankRunMatch_local:
  assumes "\<exists>c\<in>set u. \<not> isSpace c"
  shows "blankRunMatch (u @ v) = blankRunMatch u"
proof (cases u)
  case Nil
  with assms show ?thesis by simp
next
  case (Cons c cs)
  show ?thesis
  proof (cases "c = NL")
    case False
    with Cons show ?thesis by (simp add: blankRunMatch_def)
  next
    case True
    with assms Cons have ex: "\<exists>c\<in>set cs. \<not> isSpace c" by auto
    have "spacesThenNL (spacesThenNL (\<lambda>r. Some 0)) (cs @ v) = spacesThenNL (spacesThenNL (\<lambda>r. Some 0)) cs"
      using ex by (rule spacesThenNL_local) (rule spacesThenNL_local, simp_all)
    with Cons True show ?thesis by (simp add: blankRunMatch_def)
  qed
qed

lemma match_length:
  assumes "blankRunMatch (c # cs) = Some n"
  shows "\<exists>w post. takeWhile isSpace cs = w @ NL # post \<and> n = Suc (Suc (length w))
           \<and> NL \<notin> set post \<and> NL \<in> set w \<and> c = NL"
proof -
  from assms have c: "c = NL" by (auto simp: blankRunMatch_def split: if_splits)
  with assms obtain m where m: "spacesThenNL (spacesThenNL (\<lambda>r. Some 0)) cs = Some m" and n: "n = Suc m"
    by (auto simp: blankRunMatch_def)
  from outer_Some[OF m] n c show ?thesis by auto
qed

lemma collapse_append:
  "a \<noteq> [] \<Longrightarrow> \<not> isSpace (last a) \<Longrightarrow>
     collapseBlankRuns (a @ x) = collapseBlankRuns a @ collapseBlankRuns x"
proof (induction a rule: collapseBlankRuns.induct)
  case 1
  then show ?case by simp
next
  case (2 c cs)
  from 2(4) have ex: "\<exists>d\<in>set (c # cs). \<not> isSpace d" using last_in_set[of "c # cs"] by blast
  have loc: "blankRunMatch ((c # cs) @ x) = blankRunMatch (c # cs)"
    using ex by (rule blankRunMatch_local)
  show ?case
  proof (cases "blankRunMatch (c # cs)")
    case None
    show ?thesis
    proof (cases "cs = []")
      case True
      with None loc show ?thesis by simp
    next
      case False
      with 2(4) have "\<not> isSpace (last cs)" by simp
      from 2(1)[OF None False this] None loc show ?thesis by simp
    qed
  next
    case (Some n)
    from match_length[OF Some] obtain w post where
      w: "takeWhile isSpace cs = w @ NL # post" "n = Suc (Suc (length w))" "c = NL"
      by auto
    have csne: "cs \<noteq> []" using w(1) by auto
    with 2(4) have lastcs: "\<not> isSpace (last cs)" by simp
    have "length (takeWhile isSpace cs) < length cs"
    proof (rule ccontr)
      assume "\<not> length (takeWhile isSpace cs) < length cs"
      then have "length (takeWhile isSpace cs) = length cs"
        using length_takeWhile_le[of isSpace cs] by simp
      then have "takeWhile isSpace cs = cs"
        by (metis takeWhile_dropWhile_id append_eq_conv_conj drop_all le_refl length_0_conv
            length_append add_cancel_right_right self_append_conv)
      then have "\<forall>d\<in>set cs. isSpace d" by (metis set_takeWhileD)
      with csne lastcs show False using last_in_set by blast
    qed
    with w have lt: "n - 1 < length cs" by simp
    then have d1: "drop (n - 1) cs \<noteq> []" by simp
    have d2: "\<not> isSpace (last (drop (n - 1) cs))" using lt lastcs by (simp add: last_drop)
    have d3: "drop (n - 1) (cs @ x) = drop (n - 1) cs @ x" using lt by simp
    from 2(2)[OF Some d1 d2] Some loc d3 show ?thesis by simp
  qed
qed

lemma collapse_spaces_few:
  "list_all isSpace w \<Longrightarrow> length (filter (\<lambda>c. c = NL) w) \<le> 2 \<Longrightarrow> startsVisible b \<Longrightarrow>
     collapseBlankRuns (w @ b) = w @ collapseBlankRuns b"
proof (induction w)
  case Nil
  then show ?case by simp
next
  case (Cons c w)
  have tw: "takeWhile isSpace (w @ b) = w"
    using Cons.prems(1,3)
    by (cases b) (auto simp: startsVisible_def list_all_iff takeWhile_append2 intro!: takeWhile_eq_all_conv[THEN iffD2])
  have "blankRunMatch (c # w @ b) = None"
  proof (cases "blankRunMatch (c # w @ b)")
    case None then show ?thesis .
  next
    case (Some n)
    from match_Some[OF Some] have "c = NL" "2 \<le> leadingNewlines (w @ b)" by simp_all
    with tw Cons.prems(2) show ?thesis by (simp add: leadingNewlines_def)
  qed
  moreover have "collapseBlankRuns (w @ b) = w @ collapseBlankRuns b"
    using Cons.prems by (intro Cons.IH) (auto split: if_splits)
  ultimately show ?case by simp
qed

lemma collapse_no_newline:
  "NL \<notin> set p \<Longrightarrow> collapseBlankRuns (p @ y) = p @ collapseBlankRuns y"
  by (induction p) (auto simp: blankRunMatch_def)

lemma collapse_spaces_many:
  assumes sp: "list_all isSpace w" and many: "3 \<le> length (filter (\<lambda>c. c = NL) w)"
    and b: "startsVisible b"
  shows "collapseBlankRuns (w @ b) =
           takeWhile (\<lambda>c. c \<noteq> NL) w @ [NL, NL] @ rev (takeWhile (\<lambda>c. c \<noteq> NL) (rev w))
           @ collapseBlankRuns b"
proof -
  let ?pre = "takeWhile (\<lambda>c. c \<noteq> NL) w"
  let ?rest = "dropWhile (\<lambda>c. c \<noteq> NL) w"
  have w: "w = ?pre @ ?rest" by simp
  have pre_noNL: "filter (\<lambda>c. c = NL) ?pre = []"
    by (auto simp: filter_empty_conv dest: set_takeWhileD)
  have "filter (\<lambda>c. c = NL) w = filter (\<lambda>c. c = NL) ?pre @ filter (\<lambda>c. c = NL) ?rest"
    by (metis filter_append w)
  with many pre_noNL have restmany: "3 \<le> length (filter (\<lambda>c. c = NL) ?rest)" by simp
  then have "?rest \<noteq> []" by (cases ?rest) simp_all
  from hd_dropWhile[OF this] this obtain r where rest: "?rest = NL # r"
    by (cases ?rest) auto
  with restmany have rmany: "2 \<le> length (filter (\<lambda>c. c = NL) r)" by simp
  from sp have "list_all isSpace (?pre @ ?rest)" by simp
  then have sppre: "list_all isSpace ?pre" and spr: "list_all isSpace r"
    unfolding rest by simp_all
  have tw: "takeWhile isSpace (r @ b) = r"
    using spr b
    by (cases b) (auto simp: startsVisible_def list_all_iff takeWhile_append2 intro!: takeWhile_eq_all_conv[THEN iffD2])
  have "blankRunMatch (NL # r @ b) \<noteq> None"
  proof
    assume "blankRunMatch (NL # r @ b) = None"
    from match_None[OF this] tw rmany show False by (simp add: leadingNewlines_def)
  qed
  then obtain n where n: "blankRunMatch (NL # r @ b) = Some n" by auto
  from match_length[OF n] tw obtain u post where
    u: "r = u @ NL # post" "n = Suc (Suc (length u))" "NL \<notin> set post"
    by auto
  have dr: "drop (n - 1) (r @ b) = post @ b" using u by simp
  have sppost: "list_all isSpace post" using spr u(1) by simp
  have "filter (\<lambda>c. c = NL) post = []" using u(3) by (auto simp: filter_empty_conv)
  then have postfew: "length (filter (\<lambda>c. c = NL) post) \<le> 2" by simp
  have c1: "collapseBlankRuns (NL # r @ b) = NL # NL # post @ collapseBlankRuns b"
    using n dr collapse_spaces_few[OF sppost postfew b] by simp
  have c2: "collapseBlankRuns (?pre @ (NL # r @ b)) = ?pre @ collapseBlankRuns (NL # r @ b)"
    by (rule collapse_no_newline) (auto dest: set_takeWhileD)
  have "rev w = rev post @ NL # rev u @ NL # rev ?pre"
    using w rest u(1) by (metis append.assoc append_Cons append_Nil rev.simps(2) rev_append)
  then have "takeWhile (\<lambda>c. c \<noteq> NL) (rev w) = rev post"
    using u(3) by (auto simp: takeWhile_tail)
  then have post: "rev (takeWhile (\<lambda>c. c \<noteq> NL) (rev w)) = post" by simp
  have "w @ b = ?pre @ (NL # r @ b)" using w rest by (metis append.assoc append_Cons)
  then have "collapseBlankRuns (w @ b) = collapseBlankRuns (?pre @ (NL # r @ b))"
    by (simp only:)
  also have "\<dots> = ?pre @ collapseBlankRuns (NL # r @ b)" by (rule c2)
  also have "\<dots> = ?pre @ NL # NL # post @ collapseBlankRuns b" by (simp only: c1)
  finally show ?thesis by (simp only: post append_Cons append_Nil)
qed

lemma collapse_run:
  assumes "endsVisible a" and "list_all isSpace w" and "startsVisible b"
  shows "collapseBlankRuns (a @ w @ b) = collapseBlankRuns a @ squeeze w @ collapseBlankRuns b"
proof -
  have wb: "collapseBlankRuns (w @ b) = squeeze w @ collapseBlankRuns b"
  proof (cases "3 \<le> length (filter (\<lambda>c. c = NL) w)")
    case True
    from collapse_spaces_many[OF assms(2) True assms(3)] True show ?thesis
      by (simp add: squeeze_def)
  next
    case False
    then have "length (filter (\<lambda>c. c = NL) w) \<le> 2" by simp
    from collapse_spaces_few[OF assms(2) this assms(3)] False show ?thesis
      by (simp add: squeeze_def)
  qed
  show ?thesis
  proof (cases "a = []")
    case True
    with wb show ?thesis by simp
  next
    case False
    with assms(1) have "\<not> isSpace (last a)"
      by (cases a rule: rev_cases) (auto simp: endsVisible_def)
    from collapse_append[OF False this] wb show ?thesis by simp
  qed
qed

text \<open>The last step appends a newline or leaves the text alone.\<close>

lemma endsWith_NL: "endsWith [NL] s \<longleftrightarrow> s \<noteq> [] \<and> last s = NL"
  by (cases s rule: rev_cases) (auto simp: endsWith_def)

lemma ensureFinalNewline_cases:
  "ensureFinalNewline r = r \<and> r \<noteq> [] \<and> last r = NL
   \<or> ensureFinalNewline r = r @ [NL] \<and> (r = [] \<or> last r \<noteq> NL)"
  by (auto simp: ensureFinalNewline_def endsWith_NL)

lemma reorderDBML_ends_with_newline: "endsWith [NL] (reorderDBML regeneratedDbml originalOrder)"
  using ensureFinalNewline_cases[of "collapseBlankRuns (join [NL] (resultParts regeneratedDbml originalOrder))"]
  by (auto simp: reorderDBML_def endsWith_NL)

lemma final_no_run:
  assumes "list_all isSpace w1" "list_all isSpace w2" "q \<noteq> []"
  shows "ensureFinalNewline (collapseBlankRuns s) \<noteq> p @ NL # w1 @ NL # w2 @ NL # q"
proof
  assume e: "ensureFinalNewline (collapseBlankRuns s) = p @ NL # w1 @ NL # w2 @ NL # q"
  from ensureFinalNewline_cases[of "collapseBlankRuns s"] show False
  proof
    assume "ensureFinalNewline (collapseBlankRuns s) = collapseBlankRuns s
            \<and> collapseBlankRuns s \<noteq> [] \<and> last (collapseBlankRuns s) = NL"
    with e collapse_no_run[OF assms(1,2)] show False by metis
  next
    assume "ensureFinalNewline (collapseBlankRuns s) = collapseBlankRuns s @ [NL]
            \<and> (collapseBlankRuns s = [] \<or> last (collapseBlankRuns s) \<noteq> NL)"
    with e have "collapseBlankRuns s @ [NL] = p @ NL # w1 @ NL # w2 @ NL # butlast q @ [last q]"
      using assms(3) by simp
    then have "collapseBlankRuns s = p @ NL # w1 @ NL # w2 @ NL # butlast q"
      by (metis append.assoc append_Cons butlast_snoc)
    with collapse_no_run[OF assms(1,2)] show False by blast
  qed
qed

lemma final_no_three_newlines:
  "ensureFinalNewline (collapseBlankRuns s) \<noteq> p @ NL # NL # NL # q"
proof (cases "q = []")
  case False
  from final_no_run[of "[]" "[]" q s p, OF _ _ False] show ?thesis by simp
next
  case True
  show ?thesis
  proof
    assume e: "ensureFinalNewline (collapseBlankRuns s) = p @ NL # NL # NL # q"
    from ensureFinalNewline_cases[of "collapseBlankRuns s"] show False
    proof
      assume "ensureFinalNewline (collapseBlankRuns s) = collapseBlankRuns s
              \<and> collapseBlankRuns s \<noteq> [] \<and> last (collapseBlankRuns s) = NL"
      with e have "collapseBlankRuns s = p @ NL # [] @ NL # [] @ NL # q" by simp
      with collapse_no_run[of "[]" "[]" s p q] show False by simp
    next
      assume a: "ensureFinalNewline (collapseBlankRuns s) = collapseBlankRuns s @ [NL]
              \<and> (collapseBlankRuns s = [] \<or> last (collapseBlankRuns s) \<noteq> NL)"
      with e True have "collapseBlankRuns s @ [NL] = (p @ [NL, NL]) @ [NL]" by simp
      then have "collapseBlankRuns s = p @ [NL, NL]" by (simp only: append_same_eq)
      with a show False by simp
    qed
  qed
qed

text \<open>
  What holds of the clean-up. It rewrites the reassembled text run by run: a whole run
  of white space with two or more blank lines in a row (three or more newlines) becomes
  the same run with exactly one blank line (two newlines), and the text that is not
  white space stays as it is. So the text after the clean-up has nowhere three newlines
  with only white space between them. The text that \<open>reorderDBML\<close> returns has no such
  three newlines followed by further text, and nowhere three newlines in a row.
\<close>

lemma collapse_visible_run:
  assumes "list_all (\<lambda>c. \<not> isSpace c) v" and "list_all isSpace w" and "startsVisible b"
  shows "collapseBlankRuns (v @ w @ b) = v @ squeeze w @ collapseBlankRuns b"
proof -
  have "NL \<notin> set v" using assms(1) by (auto simp: list_all_iff)
  then have "collapseBlankRuns (v @ w @ b) = v @ collapseBlankRuns (w @ b)"
    by (rule collapse_no_newline)
  moreover have "collapseBlankRuns ([] @ w @ b) = collapseBlankRuns [] @ squeeze w @ collapseBlankRuns b"
    by (rule collapse_run) (simp_all add: endsVisible_def assms)
  ultimately show ?thesis by simp
qed

lemma blank_runs_collapsed:
  "(list_all (\<lambda>c. \<not> isSpace c) v \<and> list_all isSpace w \<and> startsVisible b \<longrightarrow>
      collapseBlankRuns (v @ w @ b) = v @ squeeze w @ collapseBlankRuns b)
   \<and> (list_all isSpace w1 \<and> list_all isSpace w2 \<longrightarrow>
        collapseBlankRuns s \<noteq> p @ NL # w1 @ NL # w2 @ NL # q)
   \<and> (list_all isSpace w1 \<and> list_all isSpace w2 \<and> q \<noteq> [] \<longrightarrow>
        reorderDBML regeneratedDbml originalOrder \<noteq> p @ NL # w1 @ NL # w2 @ NL # q)
   \<and> reorderDBML regeneratedDbml originalOrder \<noteq> p @ NL # NL # NL # q"
  using collapse_visible_run[of v w b] collapse_no_run[of w1 w2 s p q]
    final_no_run[of w1 w2 q "join [NL] (resultParts regeneratedDbml originalOrder)" p]
    final_no_three_newlines[of "join [NL] (resultParts regeneratedDbml originalOrder)" p q]
  by (simp add: reorderDBML_def)

text \<open>
  Claim C3: where the input of \<open>reorderDBML\<close> has a run of three or more blank lines,
  the text it returns has at most one blank line. The code cleans up the reassembled
  text (line 544) and appends the final newline afterwards (lines 547 to 549), against
  the intent its comments at lines 542 and 546 state. A regenerated text that ends in a
  reference line, four newlines and two spaces has three blank lines and an unfinished
  line of white space; the clean-up leaves one blank line and the two spaces, and the
  appended newline makes the two spaces a second blank line at that position: the
  returned text ends in two blank lines in a row.
\<close>

theorem C3_trailing_blank_line_pair:
  "''Ref: a > b\<newline>\<newline>\<newline>\<newline>  '' = ''Ref: a > b'' @ [NL, NL, NL, NL] @ ''  ''
   \<and> join [NL] (resultParts ''Ref: a > b\<newline>\<newline>\<newline>\<newline>  '' [])
       = ''\<newline>Ref: a > b\<newline>\<newline>\<newline>\<newline>  ''
   \<and> collapseBlankRuns ''\<newline>Ref: a > b\<newline>\<newline>\<newline>\<newline>  '' = ''\<newline>Ref: a > b\<newline>\<newline>  ''
   \<and> ensureFinalNewline ''\<newline>Ref: a > b\<newline>\<newline>  '' = ''\<newline>Ref: a > b\<newline>\<newline>  \<newline>''
   \<and> reorderDBML ''Ref: a > b\<newline>\<newline>\<newline>\<newline>  '' [] = ''\<newline>Ref: a > b\<newline>\<newline>  \<newline>''
   \<and> ''\<newline>Ref: a > b\<newline>\<newline>  \<newline>'' = ''\<newline>Ref: a > b'' @ [NL] @ [] @ [NL] @ ''  '' @ [NL]
   \<and> list_all isSpace ''  ''"
  by code_simp

section \<open>The final newline\<close>

text \<open>
  Claim C2: the returned text ends with exactly one newline. The code appends a newline
  when there is none (the lemma above: the result always ends with one) and never takes
  one away, although its comment at line 546 says that it ends with a single newline.
  A regenerated text that ends in a reference line and a blank line comes back with two
  newlines at its end.
\<close>

theorem C2_two_trailing_newlines:
  "reorderDBML ''Ref: a.id > b.id\<newline>\<newline>'' [] = ''\<newline>Ref: a.id > b.id\<newline>\<newline>''
   \<and> endsWith [NL, NL] (reorderDBML ''Ref: a.id > b.id\<newline>\<newline>'' [])"
  by code_simp

end
